theory Spec2Isabelle
  imports Main "HOL-Library.Multiset"
begin

section \<open>The editor picker of the workbench (editorPicker.ts)\<close>

text \<open>
  The quick-open pickers for opened editors: \<open>EditorPickerEntry\<close>, the abstract
  \<open>BaseEditorPicker\<close> with \<open>getResults\<close> and \<open>onClose\<close>, and its two
  subclasses \<open>ActiveEditorGroupPicker\<close> and \<open>AllEditorsPicker\<close>.
  Objects that the TypeScript compares by reference (editor groups) are references
  (natural numbers) into a store held by the group service; mutable objects (the entries,
  the picker with its score cache) are records that the functions return updated.
\<close>

subsection \<open>Collaborators: editors, groups, the group service\<close>

text \<open>An \<open>EditorInput\<close>, as far as the picker reads it: \<open>getName()\<close>,
  \<open>getDescription()\<close>, \<open>isDirty()\<close> and the resource of \<open>toResource\<close>.\<close>

record EditorInput =
  resource :: nat
  name :: string
  description :: string
  dirty :: bool

text \<open>An \<open>INextEditorGroup\<close> is an object compared with \<open>!==\<close>: a reference.\<close>

type_synonym INextEditorGroup = nat

datatype EditorsOrder = MOST_RECENTLY_ACTIVE | SEQUENTIAL

datatype GroupsOrder = CREATION_TIME | GROUPS_MOST_RECENTLY_ACTIVE | GRID_APPEARANCE

text \<open>What the picker reads of one group object: \<open>label\<close>, \<open>editors\<close>,
  \<open>getEditors(order)\<close>, \<open>count\<close> and \<open>isPinned(editor)\<close>.\<close>

record EditorGroup =
  label :: string
  editors :: "EditorInput list"
  getEditors :: "EditorsOrder \<Rightarrow> EditorInput list"
  count :: nat
  isPinned :: "EditorInput \<Rightarrow> bool"


text \<open>The \<open>INextEditorGroupsService\<close>: \<open>groups\<close>, \<open>getGroups(order)\<close>, its
  \<open>count\<close> (the number of groups, here \<open>groupCount\<close>: a group's \<open>count\<close> is the number of
  its editors), \<open>activeGroup\<close>, and the store of the group objects.\<close>

record INextEditorGroupsService =
  groups :: "INextEditorGroup list"
  getGroups :: "GroupsOrder \<Rightarrow> INextEditorGroup list"
  groupCount :: nat
  activeGroup :: INextEditorGroup
  groupObject :: "INextEditorGroup \<Rightarrow> EditorGroup"

subsection \<open>The scorer (quickOpenScorer), consumed\<close>

type_synonym IMatch = "nat \<times> nat"

record IItemScore =
  score :: int
  labelMatch :: "IMatch list option"
  descriptionMatch :: "IMatch list option"

record IPreparedQuery =
  value' :: string
  lowercase :: string

definition isWhitespace :: "char \<Rightarrow> bool" where
  "isWhitespace c = (c \<in> set [CHR '' '', CHR 0x09, CHR 0x0A, CHR 0x0B, CHR 0x0C, CHR 0x0D])"

definition trim :: "string \<Rightarrow> string" where
  "trim s = rev (dropWhile isWhitespace (rev (dropWhile isWhitespace s)))"

definition toLowerCase :: "string \<Rightarrow> string" where
  "toLowerCase s =
     map (\<lambda>c. let n = (of_char c :: nat) in if 65 \<le> n \<and> n \<le> 90 then char_of (n + 32) else c) s"

text \<open>Modelled from the spec: \<open>prepareQuery\<close> of quickOpenScorer is not among the sources.
  The spec's Query is "a parsed/normalized representation of the raw search text (trimmed,
  case-normalized for matching)", and an empty or whitespace-only text is the empty query.\<close>

definition prepareQuery :: "string \<Rightarrow> IPreparedQuery" where
  "prepareQuery searchValue =
     \<lparr>value' = trim searchValue, lowercase = toLowerCase (trim searchValue)\<rparr>"

subsection \<open>EditorPickerEntry\<close>

text \<open>The entry: the constructor's \<open>editor\<close> and \<open>_group\<close> (read through the getter
  \<open>group\<close>), and the fields that \<open>QuickOpenEntry\<close> and \<open>QuickOpenEntryGroup\<close> keep for
  \<open>setHighlights\<close>, \<open>setGroupLabel\<close> and \<open>setShowBorder\<close>; \<open>None\<close> is JavaScript's
  \<open>undefined\<close> of a field never assigned.\<close>

record EditorPickerEntry =
  editor :: EditorInput
  group :: INextEditorGroup
  labelHighlights :: "IMatch list option"
  descriptionHighlights :: "IMatch list option"
  groupLabel :: "string option"
  withBorder :: "bool option"

definition newEditorPickerEntry :: "EditorInput \<Rightarrow> INextEditorGroup \<Rightarrow> EditorPickerEntry" where
  "newEditorPickerEntry ed g =
     \<lparr>editor = ed, group = g, labelHighlights = None, descriptionHighlights = None,
      groupLabel = None, withBorder = None\<rparr>"

definition getLabel :: "EditorPickerEntry \<Rightarrow> string" where
  "getLabel this = name (editor this)"

definition getDescription :: "EditorPickerEntry \<Rightarrow> string" where
  "getDescription this = description (editor this)"

definition getIcon :: "EditorPickerEntry \<Rightarrow> string" where
  "getIcon this = (if dirty (editor this) then ''dirty'' else '''')"

text \<open>\<open>getLabelOptions().italic\<close>: the entry is in italics when its group has not pinned
  the editor.\<close>

definition italic :: "INextEditorGroupsService \<Rightarrow> EditorPickerEntry \<Rightarrow> bool" where
  "italic svc this = (\<not> isPinned (groupObject svc (group this)) (editor this))"

definition setHighlights ::
  "IMatch list option \<Rightarrow> IMatch list option \<Rightarrow> EditorPickerEntry \<Rightarrow> EditorPickerEntry" where
  "setHighlights lm dm this = this\<lparr>labelHighlights := lm, descriptionHighlights := dm\<rparr>"

definition setGroupLabel :: "string \<Rightarrow> EditorPickerEntry \<Rightarrow> EditorPickerEntry" where
  "setGroupLabel l this = this\<lparr>groupLabel := Some l\<rparr>"

definition setShowBorder :: "bool \<Rightarrow> EditorPickerEntry \<Rightarrow> EditorPickerEntry" where
  "setShowBorder b this = this\<lparr>withBorder := Some b\<rparr>"

datatype Mode = PREVIEW | OPEN | OPEN_IN_BACKGROUND

text \<open>\<open>runOpen\<close> calls \<open>this._group.openEditor(this.editor)\<close>, drops what the call
  returns and returns \<open>true\<close>. The group's \<open>openEditor\<close> is a parameter: it changes the
  workbench \<open>'w\<close> and reports whether the editor was opened.\<close>

definition runOpen ::
  "(INextEditorGroup \<Rightarrow> EditorInput \<Rightarrow> 'w \<Rightarrow> bool \<times> 'w) \<Rightarrow> 'c \<Rightarrow> EditorPickerEntry \<Rightarrow> 'w \<Rightarrow> bool \<times> 'w" where
  "runOpen openEditor context this w = (let (opened, w') = openEditor (group this) (editor this) w in (True, w'))"

text \<open>\<open>run\<close>; \<open>superRun\<close> is the inherited \<open>QuickOpenEntry.run\<close>.\<close>

definition run ::
  "(INextEditorGroup \<Rightarrow> EditorInput \<Rightarrow> 'w \<Rightarrow> bool \<times> 'w) \<Rightarrow> (Mode \<Rightarrow> 'c \<Rightarrow> 'w \<Rightarrow> bool \<times> 'w) \<Rightarrow>
   Mode \<Rightarrow> 'c \<Rightarrow> EditorPickerEntry \<Rightarrow> 'w \<Rightarrow> bool \<times> 'w" where
  "run openEditor superRun mode context this w =
     (if mode = OPEN then runOpen openEditor context this w else superRun mode context w)"

subsection \<open>The score cache and the scorer's two entry points\<close>

text \<open>The \<open>ScorerCache\<close> maps a key to a score; the key is the entry (its editor and its
  group) and the query string.\<close>

type_synonym CacheKey = "EditorInput \<times> INextEditorGroup \<times> string"

type_synonym ScorerCache = "CacheKey \<rightharpoonup> IItemScore"

text \<open>The scoring itself and the tie-break of the comparison are the scorer's own.\<close>

record Scorer =
  doScoreItem :: "string \<Rightarrow> string \<Rightarrow> IPreparedQuery \<Rightarrow> IItemScore"
  fallbackCompare :: "EditorPickerEntry \<Rightarrow> EditorPickerEntry \<Rightarrow> IPreparedQuery \<Rightarrow> int"

definition cacheKey :: "EditorPickerEntry \<Rightarrow> IPreparedQuery \<Rightarrow> CacheKey" where
  "cacheKey item query = (editor item, group item, value' query)"

text \<open>Modelled from the spec: \<open>scoreItem\<close> of quickOpenScorer is not among the sources.
  The spec: "compute a fuzzy match score against the candidate's combined label+description
  text using the ScoreCache (look up by (entry, query); on miss, compute and store)".\<close>

definition scoreItem ::
  "Scorer \<Rightarrow> EditorPickerEntry \<Rightarrow> IPreparedQuery \<Rightarrow> ScorerCache \<Rightarrow> IItemScore \<times> ScorerCache" where
  "scoreItem sc item query cache =
     (case cache (cacheKey item query) of
        Some cached \<Rightarrow> (cached, cache)
      | None \<Rightarrow>
          (let itemScore = doScoreItem sc (getLabel item) (getDescription item) query
           in (itemScore, cache(cacheKey item query \<mapsto> itemScore))))"

text \<open>Modelled from the spec: \<open>compareItemsByScore\<close> of quickOpenScorer is not among the
  sources. The spec: "descending fuzzy-match score, using the same score/compare function and
  cache as filtering, with ties broken by the scorer's own intrinsic tie-break rule". A
  negative result puts the first item first.\<close>

definition compareItemsByScore ::
  "Scorer \<Rightarrow> EditorPickerEntry \<Rightarrow> EditorPickerEntry \<Rightarrow> IPreparedQuery \<Rightarrow> ScorerCache \<Rightarrow> int \<times> ScorerCache" where
  "compareItemsByScore sc itemA itemB query cache =
     (let (itemScoreA, cache1) = scoreItem sc itemA query cache;
          (itemScoreB, cache2) = scoreItem sc itemB query cache1
      in (if score itemScoreA > score itemScoreB then - 1
          else if score itemScoreA < score itemScoreB then 1
          else fallbackCompare sc itemA itemB query, cache2))"

text \<open>The score of an item as \<open>scoreItem\<close> returns it on a given cache.\<close>

definition cachedScore :: "Scorer \<Rightarrow> ScorerCache \<Rightarrow> IPreparedQuery \<Rightarrow> EditorPickerEntry \<Rightarrow> IItemScore" where
  "cachedScore sc cache query item = fst (scoreItem sc item query cache)"

subsection \<open>JavaScript's arrays: indexOf and sort\<close>

text \<open>\<open>Array.prototype.indexOf\<close>: the first index of the element, \<open>-1\<close> when absent.\<close>

fun indexOf :: "'a list \<Rightarrow> 'a \<Rightarrow> int" where
  "indexOf [] x = - 1"
| "indexOf (y # ys) x = (if y = x then 0 else (let r = indexOf ys x in if r < 0 then - 1 else r + 1))"

text \<open>\<open>Array.prototype.sort(comparefn)\<close> as the insertion sort that the engine runs on short
  arrays: each element in turn is moved left past the elements \<open>tmp\<close> of the sorted prefix
  with \<open>comparefn(tmp, element) > 0\<close>. The comparison may change a state \<open>'s\<close> (here the
  score cache). \<open>insertElement\<close> takes the sorted prefix last element first.\<close>

fun insertElement ::
  "('a \<Rightarrow> 'a \<Rightarrow> 's \<Rightarrow> int \<times> 's) \<Rightarrow> 'a \<Rightarrow> 'a list \<Rightarrow> 's \<Rightarrow> 'a list \<times> 's" where
  "insertElement comparefn element [] s = ([element], s)"
| "insertElement comparefn element (tmp # rest) s =
     (let (order, s1) = comparefn tmp element s
      in if order > 0
         then (let (moved, s2) = insertElement comparefn element rest s1 in (tmp # moved, s2))
         else (element # tmp # rest, s1))"

fun insertionSort ::
  "('a \<Rightarrow> 'a \<Rightarrow> 's \<Rightarrow> int \<times> 's) \<Rightarrow> 'a list \<Rightarrow> 'a list \<Rightarrow> 's \<Rightarrow> 'a list \<times> 's" where
  "insertionSort comparefn [] prefix s = (rev prefix, s)"
| "insertionSort comparefn (element # rest) prefix s =
     (let (prefix', s1) = insertElement comparefn element prefix s
      in insertionSort comparefn rest prefix' s1)"

definition arraySort ::
  "('a \<Rightarrow> 'a \<Rightarrow> 's \<Rightarrow> int \<times> 's) \<Rightarrow> 'a list \<Rightarrow> 's \<Rightarrow> 'a list \<times> 's" where
  "arraySort comparefn xs s = insertionSort comparefn xs [] s"

subsection \<open>BaseEditorPicker\<close>

record BaseEditorPicker =
  scorerCache :: ScorerCache

text \<open>The constructor: \<open>this.scorerCache = Object.create(null)\<close>.\<close>

definition newBaseEditorPicker :: BaseEditorPicker where
  "newBaseEditorPicker = \<lparr>scorerCache = Map.empty\<rparr>"

datatype QuickOpenModel = QuickOpenModel (entries: "EditorPickerEntry list")

text \<open>The callback of \<open>editorEntries.filter\<close>, run over the array from left to right with
  the cache it reads and writes.\<close>

fun filterEntries ::
  "Scorer \<Rightarrow> IPreparedQuery \<Rightarrow> EditorPickerEntry list \<Rightarrow> ScorerCache \<Rightarrow> EditorPickerEntry list \<times> ScorerCache" where
  "filterEntries sc query [] cache = ([], cache)"
| "filterEntries sc query (e # es) cache =
     (if value' query = []
      then (let (kept, cache') = filterEntries sc query es cache in (e # kept, cache'))
      else
        (let (itemScore, cache1) = scoreItem sc e query cache
         in if score itemScore = 0 then filterEntries sc query es cache1
            else (let (kept, cache2) = filterEntries sc query es cache1
                  in (setHighlights (labelMatch itemScore) (descriptionMatch itemScore) e # kept, cache2))))"

text \<open>The comparison function handed to \<open>entries.sort\<close>.\<close>

definition sortCompare ::
  "Scorer \<Rightarrow> INextEditorGroup list \<Rightarrow> IPreparedQuery \<Rightarrow>
   EditorPickerEntry \<Rightarrow> EditorPickerEntry \<Rightarrow> ScorerCache \<Rightarrow> int \<times> ScorerCache" where
  "sortCompare sc groupsByCreation query e1 e2 cache =
     (if group e1 \<noteq> group e2
      then (indexOf groupsByCreation (group e1) - indexOf groupsByCreation (group e2), cache)
      else compareItemsByScore sc e1 e2 query cache)"

text \<open>The order the sort is to establish: an entry of an older group (a smaller index in
  the groups by creation time) comes first, and within one group the entry with the higher
  score on the given cache.\<close>

definition sortsBefore ::
  "Scorer \<Rightarrow> INextEditorGroup list \<Rightarrow> ScorerCache \<Rightarrow> IPreparedQuery \<Rightarrow>
   EditorPickerEntry \<Rightarrow> EditorPickerEntry \<Rightarrow> bool" where
  "sortsBefore sc groupsByCreation cache query a b =
     (indexOf groupsByCreation (group a) < indexOf groupsByCreation (group b)
      \<or> (group a = group b \<and> score (cachedScore sc cache query b) \<le> score (cachedScore sc cache query a)))"

text \<open>The callback of \<open>entries.forEach\<close> in the grouping step, with its variable
  \<open>lastGroup\<close> (\<open>None\<close> while it is \<open>undefined\<close>).\<close>

fun groupEntries ::
  "INextEditorGroupsService \<Rightarrow> INextEditorGroup option \<Rightarrow> EditorPickerEntry list \<Rightarrow> EditorPickerEntry list" where
  "groupEntries svc lastGroup [] = []"
| "groupEntries svc lastGroup (e # es) =
     (if lastGroup = None \<or> lastGroup \<noteq> Some (group e)
      then setShowBorder (lastGroup \<noteq> None) (setGroupLabel (label (groupObject svc (group e))) e)
             # groupEntries svc (Some (group e)) es
      else e # groupEntries svc lastGroup es)"

text \<open>\<open>getResults\<close>; \<open>editorEntries\<close> is what \<open>this.getEditorEntries()\<close> returned, the
  result \<open>None\<close> is the promise of \<open>null\<close>.\<close>

definition getResults ::
  "Scorer \<Rightarrow> INextEditorGroupsService \<Rightarrow> EditorPickerEntry list \<Rightarrow> string \<Rightarrow> BaseEditorPicker \<Rightarrow>
   QuickOpenModel option \<times> BaseEditorPicker" where
  "getResults sc svc editorEntries searchValue this =
     (if length editorEntries = 0 then (None, this)
      else
        (let query = prepareQuery searchValue;
             (filtered, cache1) = filterEntries sc query editorEntries (scorerCache this);
             (sorted, cache2) =
                (if value' query \<noteq> []
                 then arraySort (sortCompare sc (getGroups svc CREATION_TIME) query) filtered cache1
                 else (filtered, cache1));
             grouped = (if groupCount svc > 1 then groupEntries svc None sorted else sorted)
         in (Some (QuickOpenModel grouped), this\<lparr>scorerCache := cache2\<rparr>)))"

text \<open>The array \<open>entries\<close> of \<open>getResults\<close> after the filter and the sort, before the
  grouping step, for candidates \<open>editorEntries\<close> and the cache \<open>cache\<close> of the picker.\<close>

definition sortedEntries ::
  "Scorer \<Rightarrow> INextEditorGroupsService \<Rightarrow> EditorPickerEntry list \<Rightarrow> string \<Rightarrow> ScorerCache \<Rightarrow>
   EditorPickerEntry list" where
  "sortedEntries sc svc editorEntries searchValue cache =
     (let query = prepareQuery searchValue;
          (filtered, cache1) = filterEntries sc query editorEntries cache
      in if value' query \<noteq> []
         then fst (arraySort (sortCompare sc (getGroups svc CREATION_TIME) query) filtered cache1)
         else filtered)"

definition onClose :: "bool \<Rightarrow> BaseEditorPicker \<Rightarrow> BaseEditorPicker" where
  "onClose canceled this = this\<lparr>scorerCache := Map.empty\<rparr>"

subsection \<open>ActiveEditorGroupPicker and AllEditorsPicker\<close>

definition ActiveEditorGroupPicker_getEditorEntries :: "INextEditorGroupsService \<Rightarrow> EditorPickerEntry list" where
  "ActiveEditorGroupPicker_getEditorEntries svc =
     map (\<lambda>ed. newEditorPickerEntry ed (activeGroup svc))
       (getEditors (groupObject svc (activeGroup svc)) MOST_RECENTLY_ACTIVE)"

definition AllEditorsPicker_getEditorEntries :: "INextEditorGroupsService \<Rightarrow> EditorPickerEntry list" where
  "AllEditorsPicker_getEditorEntries svc =
     concat (map (\<lambda>g. map (\<lambda>ed. newEditorPickerEntry ed g) (editors (groupObject svc g))) (groups svc))"

definition ActiveEditorGroupPicker_getResults ::
  "Scorer \<Rightarrow> INextEditorGroupsService \<Rightarrow> string \<Rightarrow> BaseEditorPicker \<Rightarrow> QuickOpenModel option \<times> BaseEditorPicker" where
  "ActiveEditorGroupPicker_getResults sc svc searchValue this =
     getResults sc svc (ActiveEditorGroupPicker_getEditorEntries svc) searchValue this"

definition AllEditorsPicker_getResults ::
  "Scorer \<Rightarrow> INextEditorGroupsService \<Rightarrow> string \<Rightarrow> BaseEditorPicker \<Rightarrow> QuickOpenModel option \<times> BaseEditorPicker" where
  "AllEditorsPicker_getResults sc svc searchValue this =
     getResults sc svc (AllEditorsPicker_getEditorEntries svc) searchValue this"

text \<open>Keybindings: \<open>getParts()\<close> gives the first part and the chord part (\<open>None\<close> when the
  keybinding is no chord).\<close>

record ResolvedKeybindingPart =
  ctrlKey :: bool
  shiftKey :: bool
  altKey :: bool
  metaKey :: bool

record ResolvedKeybinding =
  getParts :: "ResolvedKeybindingPart \<times> ResolvedKeybindingPart option"

record IQuickNavigateConfiguration =
  keybindings :: "ResolvedKeybinding list"

record AutoFocusContext =
  quickNavigateConfiguration :: "IQuickNavigateConfiguration option"

text \<open>\<open>IAutoFocus\<close>: a property the returned object literal does not have is \<open>None\<close>.\<close>

record IAutoFocus =
  autoFocusFirstEntry :: "bool option"
  autoFocusSecondEntry :: "bool option"
  autoFocusLastEntry :: "bool option"

definition ActiveEditorGroupPicker_getAutoFocus ::
  "INextEditorGroupsService \<Rightarrow> string \<Rightarrow> AutoFocusContext \<Rightarrow> IAutoFocus" where
  "ActiveEditorGroupPicker_getAutoFocus svc searchValue context =
     (if searchValue \<noteq> [] \<or> quickNavigateConfiguration context = None
      then \<lparr>autoFocusFirstEntry = Some True, autoFocusSecondEntry = None, autoFocusLastEntry = None\<rparr>
      else
        (let isShiftNavigate =
               (case quickNavigateConfiguration context of
                  None \<Rightarrow> False
                | Some conf \<Rightarrow>
                    list_ex (\<lambda>k. let (firstPart, chordPart) = getParts k
                                 in if chordPart \<noteq> None then False else shiftKey firstPart)
                      (keybindings conf))
         in if isShiftNavigate
            then \<lparr>autoFocusFirstEntry = None, autoFocusSecondEntry = None, autoFocusLastEntry = Some True\<rparr>
            else (let editors = count (groupObject svc (activeGroup svc))
                  in \<lparr>autoFocusFirstEntry = Some (editors = 1), autoFocusSecondEntry = Some (editors > 1),
                      autoFocusLastEntry = None\<rparr>)))"

text \<open>\<open>AllEditorsPicker\<close> extends \<open>BaseEditorPicker\<close>, which extends \<open>QuickOpenHandler\<close>
  and has no \<open>getAutoFocus\<close> of its own: \<open>super.getAutoFocus\<close> is the handler's, taken
  as the parameter \<open>superGetAutoFocus\<close>.\<close>

definition AllEditorsPicker_getAutoFocus ::
  "(string \<Rightarrow> AutoFocusContext \<Rightarrow> IAutoFocus) \<Rightarrow> string \<Rightarrow> AutoFocusContext \<Rightarrow> IAutoFocus" where
  "AllEditorsPicker_getAutoFocus superGetAutoFocus searchValue context =
     (if searchValue \<noteq> []
      then \<lparr>autoFocusFirstEntry = Some True, autoFocusSecondEntry = None, autoFocusLastEntry = None\<rparr>
      else superGetAutoFocus searchValue context)"

subsection \<open>Example data\<close>

text \<open>Four editors in two groups, after the spec's end-to-end example (\<open>foo.txt\<close> and
  \<open>bar.txt\<close> in group 1, \<open>foobar.txt\<close> in group 2), and a scorer that scores an item by
  whether the query is a prefix of its label. Group 1 was created first; group 2 comes first
  in \<open>groups\<close>.\<close>

definition edA :: EditorInput where
  "edA = \<lparr>resource = 1, name = ''foo.txt'', description = ''src'', dirty = False\<rparr>"

definition edB :: EditorInput where
  "edB = \<lparr>resource = 2, name = ''bar.txt'', description = ''src'', dirty = True\<rparr>"

definition edC :: EditorInput where
  "edC = \<lparr>resource = 3, name = ''foobar.txt'', description = ''lib'', dirty = False\<rparr>"

definition edD :: EditorInput where
  "edD = \<lparr>resource = 4, name = ''fo.txt'', description = ''doc'', dirty = False\<rparr>"

definition exampleGroup :: "INextEditorGroup \<Rightarrow> EditorGroup" where
  "exampleGroup g =
     (if g = 1
      then \<lparr>label = ''Group 1'', editors = [edA, edB, edD],
            getEditors = (\<lambda>order. if order = MOST_RECENTLY_ACTIVE then [edB, edD, edA] else [edA, edB, edD]),
            count = 3, isPinned = (\<lambda>ed. True)\<rparr>
      else \<lparr>label = ''Group 2'', editors = [edC], getEditors = (\<lambda>order. [edC]),
            count = 1, isPinned = (\<lambda>ed. False)\<rparr>)"

definition exampleService :: INextEditorGroupsService where
  "exampleService =
     \<lparr>groups = [2, 1], getGroups = (\<lambda>order. if order = CREATION_TIME then [1, 2] else [2, 1]),
      groupCount = 2, activeGroup = 1, groupObject = exampleGroup\<rparr>"

definition exampleScorer :: Scorer where
  "exampleScorer =
     \<lparr>doScoreItem = (\<lambda>lbl descr query.
        if take (length (value' query)) lbl = value' query
        then \<lparr>score = 1 + int (length lbl), labelMatch = Some [(0, length (value' query))], descriptionMatch = None\<rparr>
        else \<lparr>score = 0, labelMatch = None, descriptionMatch = None\<rparr>),
      fallbackCompare = (\<lambda>a b query. 0)\<rparr>"

definition exampleCandidates :: "(EditorInput \<times> INextEditorGroup) list" where
  "exampleCandidates = [(edD, 1), (edC, 2), (edB, 1), (edA, 1)]"

definition exampleEntries :: "EditorPickerEntry list" where
  "exampleEntries = map (\<lambda>(ed, g). newEditorPickerEntry ed g) exampleCandidates"

text \<open>A picker whose cache holds a stale score for \<open>edA\<close> in group 1 and the query \<open>fo\<close>.\<close>

definition stalePicker :: BaseEditorPicker where
  "stalePicker =
     \<lparr>scorerCache = [(edA, 1, ''fo'') \<mapsto> \<lparr>score = 0, labelMatch = None, descriptionMatch = None\<rparr>]\<rparr>"

text \<open>What the example's queries return: for the query \<open>fo\<close> over all four candidates,
  for a blank query over them, and for a blank query in the single-group picker.\<close>

definition exampleResultFo :: "EditorPickerEntry list" where
  "exampleResultFo =
     [\<lparr>editor = edA, group = 1, labelHighlights = Some [(0, 2)], descriptionHighlights = None,
       groupLabel = Some ''Group 1'', withBorder = Some False\<rparr>,
      \<lparr>editor = edD, group = 1, labelHighlights = Some [(0, 2)], descriptionHighlights = None,
       groupLabel = None, withBorder = None\<rparr>,
      \<lparr>editor = edC, group = 2, labelHighlights = Some [(0, 2)], descriptionHighlights = None,
       groupLabel = Some ''Group 2'', withBorder = Some True\<rparr>]"

definition exampleResultBlank :: "EditorPickerEntry list" where
  "exampleResultBlank =
     [\<lparr>editor = edD, group = 1, labelHighlights = None, descriptionHighlights = None,
       groupLabel = Some ''Group 1'', withBorder = Some False\<rparr>,
      \<lparr>editor = edC, group = 2, labelHighlights = None, descriptionHighlights = None,
       groupLabel = Some ''Group 2'', withBorder = Some True\<rparr>,
      \<lparr>editor = edB, group = 1, labelHighlights = None, descriptionHighlights = None,
       groupLabel = Some ''Group 1'', withBorder = Some True\<rparr>,
      \<lparr>editor = edA, group = 1, labelHighlights = None, descriptionHighlights = None,
       groupLabel = None, withBorder = None\<rparr>]"

definition exampleResultActive :: "EditorPickerEntry list" where
  "exampleResultActive =
     [\<lparr>editor = edB, group = 1, labelHighlights = None, descriptionHighlights = None,
       groupLabel = Some ''Group 1'', withBorder = Some False\<rparr>,
      \<lparr>editor = edD, group = 1, labelHighlights = None, descriptionHighlights = None,
       groupLabel = None, withBorder = None\<rparr>,
      \<lparr>editor = edA, group = 1, labelHighlights = None, descriptionHighlights = None,
       groupLabel = None, withBorder = None\<rparr>]"

definition plainKey :: ResolvedKeybinding where
  "plainKey = \<lparr>getParts = (\<lparr>ctrlKey = True, shiftKey = False, altKey = False, metaKey = False\<rparr>, None)\<rparr>"

definition shiftKeyBinding :: ResolvedKeybinding where
  "shiftKeyBinding = \<lparr>getParts = (\<lparr>ctrlKey = True, shiftKey = True, altKey = False, metaKey = False\<rparr>, None)\<rparr>"

definition shiftChord :: ResolvedKeybinding where
  "shiftChord =
     \<lparr>getParts = (\<lparr>ctrlKey = True, shiftKey = True, altKey = False, metaKey = False\<rparr>,
                  Some \<lparr>ctrlKey = True, shiftKey = False, altKey = False, metaKey = False\<rparr>)\<rparr>"

section \<open>Properties\<close>

subsection \<open>The score cache\<close>

lemma cacheKey_setHighlights: "cacheKey (setHighlights a b e) q = cacheKey e q"
  by (simp add: cacheKey_def setHighlights_def)

lemma cachedScore_alt:
  "cachedScore sc c q e =
     (case c (cacheKey e q) of Some s \<Rightarrow> s | None \<Rightarrow> doScoreItem sc (getLabel e) (getDescription e) q)"
  by (simp add: cachedScore_def scoreItem_def Let_def split: option.splits)

lemma scoreItem_snd:
  "snd (scoreItem sc e q c) =
     (case c (cacheKey e q) of Some s \<Rightarrow> c
      | None \<Rightarrow> c(cacheKey e q \<mapsto> doScoreItem sc (getLabel e) (getDescription e) q))"
  by (simp add: scoreItem_def Let_def split: option.splits)

lemma scoreItem_pair: "scoreItem sc e q c = (cachedScore sc c q e, snd (scoreItem sc e q c))"
  by (simp add: cachedScore_def)

lemma cacheKey_eq_label:
  "cacheKey e' q = cacheKey e q \<Longrightarrow> getLabel e' = getLabel e \<and> getDescription e' = getDescription e"
  by (simp add: cacheKey_def getLabel_def getDescription_def)

lemma cachedScore_scoreItem:
  "cachedScore sc (snd (scoreItem sc e q c)) q e' = cachedScore sc c q e'"
  by (auto simp: cachedScore_alt scoreItem_snd dest: cacheKey_eq_label split: option.splits)

lemma scoreItem_hit: "cacheKey e q \<in> dom c \<Longrightarrow> snd (scoreItem sc e q c) = c"
  by (auto simp: scoreItem_snd split: option.splits)

lemma scoreItem_dom: "dom (snd (scoreItem sc e q c)) = insert (cacheKey e q) (dom c)"
  by (auto simp: scoreItem_snd split: option.splits)

lemma cachedScore_setHighlights: "cachedScore sc c q (setHighlights a b e) = cachedScore sc c q e"
  by (simp add: cachedScore_alt cacheKey_def getLabel_def getDescription_def setHighlights_def
      split: option.splits)

subsection \<open>The filter step\<close>

lemma filterEntries_empty_query:
  "value' q = [] \<Longrightarrow> filterEntries sc q es c = (es, c)"
  by (induction es arbitrary: c) simp_all

lemma filterEntries_cachedScore:
  "cachedScore sc (snd (filterEntries sc q es c)) q e' = cachedScore sc c q e'"
proof (induction es arbitrary: c)
  case Nil
  show ?case by simp
next
  case (Cons e es)
  show ?case
  proof (cases "value' q = []")
    case True
    then show ?thesis by (simp add: filterEntries_empty_query)
  next
    case False
    have step: "cachedScore sc (snd (filterEntries sc q es (snd (scoreItem sc e q c)))) q e' = cachedScore sc c q e'"
      using Cons.IH [of "snd (scoreItem sc e q c)"] by (simp add: cachedScore_scoreItem)
    from False step show ?thesis
      by (simp add: split_def Let_def)
  qed
qed

lemma filterEntries_fst:
  "value' q \<noteq> [] \<Longrightarrow>
   fst (filterEntries sc q es c) =
     map (\<lambda>e. setHighlights (labelMatch (cachedScore sc c q e)) (descriptionMatch (cachedScore sc c q e)) e)
       (filter (\<lambda>e. score (cachedScore sc c q e) \<noteq> 0) es)"
proof (induction es arbitrary: c)
  case Nil
  show ?case by simp
next
  case (Cons e es)
  have same: "\<And>x. cachedScore sc (snd (scoreItem sc e q c)) q x = cachedScore sc c q x"
    by (rule cachedScore_scoreItem)
  have IH: "fst (filterEntries sc q es (snd (scoreItem sc e q c))) =
     map (\<lambda>e. setHighlights (labelMatch (cachedScore sc c q e)) (descriptionMatch (cachedScore sc c q e)) e)
       (filter (\<lambda>e. score (cachedScore sc c q e) \<noteq> 0) es)"
    using Cons.IH [OF Cons.prems, of "snd (scoreItem sc e q c)"] by (simp add: same)
  from Cons.prems IH show ?case
    by (simp add: split_def Let_def cachedScore_def)
qed

lemma filterEntries_dom:
  "value' q \<noteq> [] \<Longrightarrow> dom (snd (filterEntries sc q es c)) = dom c \<union> (\<lambda>e. cacheKey e q) ` set es"
proof (induction es arbitrary: c)
  case Nil
  show ?case by simp
next
  case (Cons e es)
  from Cons.prems Cons.IH [OF Cons.prems, of "snd (scoreItem sc e q c)"] show ?case
    by (auto simp add: split_def Let_def scoreItem_dom)
qed

lemma filterEntries_hit:
  "(\<lambda>e. cacheKey e q) ` set es \<subseteq> dom c \<Longrightarrow> snd (filterEntries sc q es c) = c"
proof (induction es arbitrary: c)
  case Nil
  show ?case by simp
next
  case (Cons e es)
  have "snd (scoreItem sc e q c) = c"
    using Cons.prems by (intro scoreItem_hit) auto
  with Cons show ?case
    by (simp add: split_def Let_def)
qed

subsection \<open>The comparison function\<close>

lemma compareItemsByScore_fst:
  "fst (compareItemsByScore sc a b q c) =
     (if score (cachedScore sc c q a) > score (cachedScore sc c q b) then - 1
      else if score (cachedScore sc c q a) < score (cachedScore sc c q b) then 1
      else fallbackCompare sc a b q)"
proof -
  have "fst (scoreItem sc b q (snd (scoreItem sc a q c))) = cachedScore sc c q b"
    using cachedScore_scoreItem [of sc a q c b] by (simp add: cachedScore_def)
  then show ?thesis
    by (simp add: compareItemsByScore_def split_def Let_def cachedScore_def)
qed

lemma compareItemsByScore_snd:
  "cacheKey a q \<in> dom c \<Longrightarrow> cacheKey b q \<in> dom c \<Longrightarrow> snd (compareItemsByScore sc a b q c) = c"
  by (simp add: compareItemsByScore_def split_def Let_def scoreItem_hit)

lemma sortCompare_snd:
  "cacheKey a q \<in> dom c \<Longrightarrow> cacheKey b q \<in> dom c \<Longrightarrow> snd (sortCompare sc gs q a b c) = c"
  by (simp add: sortCompare_def compareItemsByScore_snd)

lemma indexOf_ge: "- 1 \<le> indexOf xs x"
  by (induction xs) (auto simp: Let_def)

lemma indexOf_nonneg: "x \<in> set xs \<Longrightarrow> 0 \<le> indexOf xs x"
  by (induction xs) (auto simp: Let_def)

lemma indexOf_absent: "x \<notin> set xs \<Longrightarrow> indexOf xs x = - 1"
  by (induction xs) (auto simp: Let_def)

lemma indexOf_nth: "x \<in> set xs \<Longrightarrow> xs ! nat (indexOf xs x) = x \<and> nat (indexOf xs x) < length xs"
proof (induction xs)
  case Nil
  then show ?case by simp
next
  case (Cons y ys)
  show ?case
  proof (cases "y = x")
    case True
    then show ?thesis by simp
  next
    case False
    with Cons.prems have mem: "x \<in> set ys" by simp
    have nn: "0 \<le> indexOf ys x" using mem by (rule indexOf_nonneg)
    have "nat (indexOf ys x + 1) = Suc (nat (indexOf ys x))" using nn by simp
    with False nn Cons.IH [OF mem] show ?thesis by (simp add: Let_def)
  qed
qed

lemma indexOf_inj:
  "x \<in> set xs \<Longrightarrow> y \<in> set xs \<Longrightarrow> indexOf xs x = indexOf xs y \<Longrightarrow> x = y"
proof -
  assume a: "x \<in> set xs" and b: "y \<in> set xs" and e: "indexOf xs x = indexOf xs y"
  have "xs ! nat (indexOf xs x) = x" using indexOf_nth [OF a] by blast
  moreover have "xs ! nat (indexOf xs y) = y" using indexOf_nth [OF b] by blast
  ultimately show "x = y" using e by metis
qed


subsection \<open>The insertion sort\<close>

lemma insertElement_stable:
  "\<forall>t\<in>set ys. snd (cmp t x s) = s \<Longrightarrow>
   snd (insertElement cmp x ys s) = s \<and> mset (fst (insertElement cmp x ys s)) = add_mset x (mset ys)"
  by (induction ys) (auto simp: split_def Let_def)

lemma insertElement_sorted:
  assumes stable: "\<forall>t\<in>set ys. snd (cmp t x s) = s"
    and gt: "\<And>t. t \<in> set ys \<Longrightarrow> 0 < fst (cmp t x s) \<Longrightarrow> R x t"
    and le: "\<And>t. t \<in> set ys \<Longrightarrow> \<not> 0 < fst (cmp t x s) \<Longrightarrow> R t x"
    and trans: "\<And>a b c. R a b \<Longrightarrow> R b c \<Longrightarrow> R a c"
    and sorted: "sorted_wrt (\<lambda>a b. R b a) ys"
  shows "sorted_wrt (\<lambda>a b. R b a) (fst (insertElement cmp x ys s))"
  using stable gt le sorted
proof (induction ys)
  case Nil
  show ?case by simp
next
  case (Cons t rest)
  have st: "snd (cmp t x s) = s" using Cons.prems(1) by simp
  show ?case
  proof (cases "0 < fst (cmp t x s)")
    case True
    have rest_stable: "\<forall>u\<in>set rest. snd (cmp u x s) = s" using Cons.prems(1) by simp
    have IH: "sorted_wrt (\<lambda>a b. R b a) (fst (insertElement cmp x rest s))"
      using Cons.IH [OF rest_stable] Cons.prems by simp
    have set_moved: "set (fst (insertElement cmp x rest s)) = insert x (set rest)"
      using insertElement_stable [where ys = rest and cmp = cmp and x = x and s = s, OF rest_stable] by (metis set_mset_add_mset_insert set_mset_mset)
    have "R x t" using Cons.prems(2) [of t] True by simp
    moreover have "\<forall>y\<in>set rest. R y t" using Cons.prems(4) by simp
    ultimately show ?thesis using True st IH set_moved
      by (simp add: split_def Let_def)
  next
    case False
    have tx: "R t x" using Cons.prems(3) [of t] False by simp
    have "\<forall>y\<in>set rest. R y x"
    proof
      fix y assume "y \<in> set rest"
      then have "R y t" using Cons.prems(4) by simp
      then show "R y x" using tx trans by blast
    qed
    then show ?thesis using False st tx Cons.prems(4)
      by (simp add: split_def Let_def)
  qed
qed

lemma insertionSort_stable:
  "\<forall>a\<in>set xs \<union> set p. \<forall>b\<in>set xs \<union> set p. snd (cmp a b s) = s \<Longrightarrow>
   snd (insertionSort cmp xs p s) = s \<and> mset (fst (insertionSort cmp xs p s)) = mset xs + mset p"
proof (induction xs arbitrary: p)
  case Nil
  show ?case by simp
next
  case (Cons x xs)
  have st: "\<forall>t\<in>set p. snd (cmp t x s) = s" using Cons.prems by simp
  note ins = insertElement_stable [where ys = p and cmp = cmp and x = x and s = s, OF st]
  have set_p: "set (fst (insertElement cmp x p s)) = insert x (set p)"
    using ins by (metis set_mset_add_mset_insert set_mset_mset)
  have "\<forall>a\<in>set xs \<union> set (fst (insertElement cmp x p s)).
          \<forall>b\<in>set xs \<union> set (fst (insertElement cmp x p s)). snd (cmp a b s) = s"
    using Cons.prems set_p by simp
  from Cons.IH [OF this] ins show ?case
    by (simp add: split_def Let_def)
qed

lemma insertionSort_sorted:
  assumes stable: "\<forall>a\<in>set xs \<union> set p. \<forall>b\<in>set xs \<union> set p. snd (cmp a b s) = s"
    and gt: "\<And>t x. t \<in> set xs \<union> set p \<Longrightarrow> x \<in> set xs \<union> set p \<Longrightarrow> 0 < fst (cmp t x s) \<Longrightarrow> R x t"
    and le: "\<And>t x. t \<in> set xs \<union> set p \<Longrightarrow> x \<in> set xs \<union> set p \<Longrightarrow> \<not> 0 < fst (cmp t x s) \<Longrightarrow> R t x"
    and trans: "\<And>a b c. R a b \<Longrightarrow> R b c \<Longrightarrow> R a c"
    and sorted: "sorted_wrt (\<lambda>a b. R b a) p"
  shows "sorted_wrt R (fst (insertionSort cmp xs p s))"
  using stable gt le sorted
proof (induction xs arbitrary: p)
  case Nil
  have "sorted_wrt R (rev p)" using Nil.prems(4) by (simp add: sorted_wrt_rev)
  then show ?case by simp
next
  case (Cons x xs)
  have st: "\<forall>t\<in>set p. snd (cmp t x s) = s" using Cons.prems(1) by simp
  note ins = insertElement_stable [where ys = p and cmp = cmp and x = x and s = s, OF st]
  let ?p = "fst (insertElement cmp x p s)"
  have set_p: "set ?p = insert x (set p)"
    using ins by (metis set_mset_add_mset_insert set_mset_mset)
  have sub: "set xs \<union> set ?p = set (x # xs) \<union> set p" using set_p by auto
  have sorted_p: "sorted_wrt (\<lambda>a b. R b a) ?p"
  proof (rule insertElement_sorted [where ys = p and cmp = cmp and x = x and s = s and R = R, OF st _ _ trans Cons.prems(4)])
    fix t assume "t \<in> set p" "0 < fst (cmp t x s)"
    then show "R x t" using Cons.prems(2) [of t x] by simp
  next
    fix t assume "t \<in> set p" "\<not> 0 < fst (cmp t x s)"
    then show "R t x" using Cons.prems(3) [of t x] by simp
  qed
  have "sorted_wrt R (fst (insertionSort cmp xs ?p s))"
  proof (rule Cons.IH [OF _ _ _ sorted_p])
    show "\<forall>a\<in>set xs \<union> set ?p. \<forall>b\<in>set xs \<union> set ?p. snd (cmp a b s) = s"
      using Cons.prems(1) unfolding sub by blast
  next
    fix t y assume "t \<in> set xs \<union> set ?p" "y \<in> set xs \<union> set ?p" "0 < fst (cmp t y s)"
    then show "R y t" using Cons.prems(2) [of t y] unfolding sub by blast
  next
    fix t y assume "t \<in> set xs \<union> set ?p" "y \<in> set xs \<union> set ?p" "\<not> 0 < fst (cmp t y s)"
    then show "R t y" using Cons.prems(3) [of t y] unfolding sub by blast
  qed
  then show ?case using ins by (simp add: split_def Let_def)
qed


subsection \<open>The sort step of getResults\<close>

lemma cachedScore_cong:
  "editor a = editor b \<Longrightarrow> group a = group b \<Longrightarrow> cachedScore sc c q a = cachedScore sc c q b"
  by (simp add: cachedScore_alt cacheKey_def getLabel_def getDescription_def split: option.splits)

lemma sortsBefore_trans:
  "sortsBefore sc gs c q x y \<Longrightarrow> sortsBefore sc gs c q y z \<Longrightarrow> sortsBefore sc gs c q x z"
  by (auto simp: sortsBefore_def)

lemma sortCompare_gt:
  "0 < fst (sortCompare sc gs q t x c) \<Longrightarrow> sortsBefore sc gs c q x t"
  by (auto simp: sortCompare_def sortsBefore_def compareItemsByScore_fst split: if_splits)

lemma sortCompare_le:
  assumes "group t \<in> set gs" "group x \<in> set gs" "\<not> 0 < fst (sortCompare sc gs q t x c)"
  shows "sortsBefore sc gs c q t x"
proof (cases "group t = group x")
  case True
  with assms(3) show ?thesis
    by (auto simp: sortCompare_def sortsBefore_def compareItemsByScore_fst split: if_splits)
next
  case False
  then have "indexOf gs (group t) \<noteq> indexOf gs (group x)"
    using indexOf_inj [OF assms(1) assms(2)] by blast
  with False assms(3) show ?thesis
    by (simp add: sortCompare_def sortsBefore_def)
qed

lemma arraySort_entries:
  assumes keys: "\<forall>e\<in>set xs. cacheKey e q \<in> dom c"
  shows "snd (arraySort (sortCompare sc gs q) xs c) = c"
    and "mset (fst (arraySort (sortCompare sc gs q) xs c)) = mset xs"
    and "\<forall>e\<in>set xs. group e \<in> set gs \<Longrightarrow>
         sorted_wrt (sortsBefore sc gs c q) (fst (arraySort (sortCompare sc gs q) xs c))"
proof -
  have stable: "\<forall>a\<in>set xs \<union> set []. \<forall>b\<in>set xs \<union> set []. snd (sortCompare sc gs q a b c) = c"
    using keys by (simp add: sortCompare_snd)
  note st = insertionSort_stable [where cmp = "sortCompare sc gs q" and xs = xs and p = "[]" and s = c, OF stable]
  show "snd (arraySort (sortCompare sc gs q) xs c) = c"
    using st by (simp add: arraySort_def)
  show "mset (fst (arraySort (sortCompare sc gs q) xs c)) = mset xs"
    using st by (simp add: arraySort_def)
  assume mem: "\<forall>e\<in>set xs. group e \<in> set gs"
  have "sorted_wrt (sortsBefore sc gs c q) (fst (insertionSort (sortCompare sc gs q) xs [] c))"
  proof (rule insertionSort_sorted [where cmp = "sortCompare sc gs q" and xs = xs and p = "[]" and s = c
        and R = "sortsBefore sc gs c q", OF stable])
    fix t x assume "t \<in> set xs \<union> set []" "x \<in> set xs \<union> set []" "0 < fst (sortCompare sc gs q t x c)"
    then show "sortsBefore sc gs c q x t" by (simp add: sortCompare_gt)
  next
    fix t x assume "t \<in> set xs \<union> set []" "x \<in> set xs \<union> set []" "\<not> 0 < fst (sortCompare sc gs q t x c)"
    then show "sortsBefore sc gs c q t x" using mem by (intro sortCompare_le) auto
  next
    fix x y z assume "sortsBefore sc gs c q x y" "sortsBefore sc gs c q y z"
    then show "sortsBefore sc gs c q x z" by (rule sortsBefore_trans)
  next
    show "sorted_wrt (\<lambda>a b. sortsBefore sc gs c q b a) []" by simp
  qed
  then show "sorted_wrt (sortsBefore sc gs c q) (fst (arraySort (sortCompare sc gs q) xs c))"
    by (simp add: arraySort_def)
qed

subsection \<open>The grouping step\<close>

lemma length_groupEntries: "length (groupEntries svc lg xs) = length xs"
  by (induction xs arbitrary: lg) simp_all

lemma groupEntries_Cons:
  "groupEntries svc lg (e # es) =
     (if lg = None \<or> lg \<noteq> Some (group e)
      then setShowBorder (lg \<noteq> None) (setGroupLabel (label (groupObject svc (group e))) e)
      else e) # groupEntries svc (Some (group e)) es"
  by auto

lemma groupEntries_nth:
  "i < length xs \<Longrightarrow>
   groupEntries svc lg xs ! i =
     (let prev = (if i = 0 then lg else Some (group (xs ! (i - 1))))
      in if prev = None \<or> prev \<noteq> Some (group (xs ! i))
         then setShowBorder (prev \<noteq> None) (setGroupLabel (label (groupObject svc (group (xs ! i)))) (xs ! i))
         else xs ! i)"
proof (induction xs arbitrary: lg i)
  case Nil
  then show ?case by simp
next
  case (Cons e es)
  show ?case
  proof (cases i)
    case 0
    then show ?thesis by (simp only: groupEntries_Cons) (simp add: Let_def)
  next
    case (Suc j)
    with Cons.prems have j: "j < length es" by simp
    show ?thesis
      using Cons.IH [OF j, of "Some (group e)"] Suc
      by (simp only: groupEntries_Cons) (cases j; simp add: Let_def)
  qed
qed


lemma groupEntries_keys:
  "map (\<lambda>e. (editor e, group e)) (groupEntries svc lg xs) = map (\<lambda>e. (editor e, group e)) xs"
  by (induction xs arbitrary: lg) (simp_all add: setShowBorder_def setGroupLabel_def)

lemma groupEntries_member:
  "r \<in> set (groupEntries svc lg xs) \<Longrightarrow>
   \<exists>x\<in>set xs. editor r = editor x \<and> group r = group x \<and>
     labelHighlights r = labelHighlights x \<and> descriptionHighlights r = descriptionHighlights x"
  by (induction xs arbitrary: lg) (auto simp: setShowBorder_def setGroupLabel_def split: if_splits)

subsection \<open>getResults, step by step\<close>

lemma filterEntries_keys_cached:
  assumes "value' q \<noteq> []"
  shows "\<forall>e\<in>set (fst (filterEntries sc q es c)). cacheKey e q \<in> dom (snd (filterEntries sc q es c))"
  using assms by (auto simp: filterEntries_fst filterEntries_dom cacheKey_setHighlights)

lemma filterEntries_groups:
  "\<forall>e\<in>set es. group e \<in> G \<Longrightarrow> \<forall>e\<in>set (fst (filterEntries sc q es c)). group e \<in> G"
  by (cases "value' q = []") (auto simp: filterEntries_fst filterEntries_empty_query setHighlights_def)

lemma getResults_unfold:
  assumes "es \<noteq> []"
  shows "getResults sc svc es s p =
     (Some (QuickOpenModel
        (if groupCount svc > 1
         then groupEntries svc None (sortedEntries sc svc es s (scorerCache p))
         else sortedEntries sc svc es s (scorerCache p))),
      p\<lparr>scorerCache := snd (filterEntries sc (prepareQuery s) es (scorerCache p))\<rparr>)"
proof (cases "value' (prepareQuery s) = []")
  case True
  with assms show ?thesis
    by (simp add: getResults_def sortedEntries_def Let_def filterEntries_empty_query)
next
  case False
  have "snd (arraySort (sortCompare sc (getGroups svc CREATION_TIME) (prepareQuery s))
               (fst (filterEntries sc (prepareQuery s) es (scorerCache p)))
               (snd (filterEntries sc (prepareQuery s) es (scorerCache p))))
        = snd (filterEntries sc (prepareQuery s) es (scorerCache p))"
    by (rule arraySort_entries(1) [OF filterEntries_keys_cached [OF False]])
  with assms False show ?thesis
    by (simp add: getResults_def sortedEntries_def Let_def split_def)
qed

lemma sortedEntries_empty_query:
  "value' (prepareQuery s) = [] \<Longrightarrow> sortedEntries sc svc es s c = es"
  by (simp add: sortedEntries_def Let_def filterEntries_empty_query)

lemma sortedEntries_mset:
  assumes "value' (prepareQuery s) \<noteq> []"
  shows "mset (sortedEntries sc svc es s c) =
     mset (map (\<lambda>e. setHighlights (labelMatch (cachedScore sc c (prepareQuery s) e))
                        (descriptionMatch (cachedScore sc c (prepareQuery s) e)) e)
            (filter (\<lambda>e. score (cachedScore sc c (prepareQuery s) e) \<noteq> 0) es))"
proof -
  have "mset (sortedEntries sc svc es s c) = mset (fst (filterEntries sc (prepareQuery s) es c))"
    using assms arraySort_entries(2) [OF filterEntries_keys_cached [OF assms]]
    by (simp add: sortedEntries_def Let_def split_def)
  then show ?thesis by (simp add: filterEntries_fst [OF assms])
qed

lemma sortsBefore_cache:
  "sortsBefore sc gs (snd (filterEntries sc q es c)) q = sortsBefore sc gs c q"
  by (intro ext) (simp add: sortsBefore_def filterEntries_cachedScore)

lemma sortedEntries_sorted:
  assumes q: "value' (prepareQuery s) \<noteq> []"
    and mem: "\<forall>e\<in>set es. group e \<in> set (getGroups svc CREATION_TIME)"
  shows "sorted_wrt (sortsBefore sc (getGroups svc CREATION_TIME) c (prepareQuery s)) (sortedEntries sc svc es s c)"
proof -
  have "\<forall>e\<in>set (fst (filterEntries sc (prepareQuery s) es c)). group e \<in> set (getGroups svc CREATION_TIME)"
    using mem by (rule filterEntries_groups)
  from arraySort_entries(3) [where sc = sc, OF filterEntries_keys_cached [OF q] this] q show ?thesis
    by (simp add: sortedEntries_def Let_def split_def sortsBefore_cache)
qed

lemma sortedEntries_member:
  assumes "r \<in> set (sortedEntries sc svc es s c)"
  shows "\<exists>e\<in>set es. editor r = editor e \<and> group r = group e \<and> groupLabel r = groupLabel e \<and> withBorder r = withBorder e
          \<and> (if value' (prepareQuery s) = [] then r = e
             else score (cachedScore sc c (prepareQuery s) e) \<noteq> 0
               \<and> labelHighlights r = labelMatch (cachedScore sc c (prepareQuery s) e)
               \<and> descriptionHighlights r = descriptionMatch (cachedScore sc c (prepareQuery s) e))"
proof (cases "value' (prepareQuery s) = []")
  case True
  with assms show ?thesis by (auto simp: sortedEntries_empty_query)
next
  case False
  have "r \<in># mset (sortedEntries sc svc es s c)" using assms by simp
  then have "r \<in> set (map (\<lambda>e. setHighlights (labelMatch (cachedScore sc c (prepareQuery s) e))
                        (descriptionMatch (cachedScore sc c (prepareQuery s) e)) e)
            (filter (\<lambda>e. score (cachedScore sc c (prepareQuery s) e) \<noteq> 0) es))"
    unfolding sortedEntries_mset [OF False] by simp
  with False show ?thesis by (auto simp: setHighlights_def)
qed

subsection \<open>Running an entry\<close>

text \<open>C5 (as amended). Activating an entry, \<open>run\<close> with \<open>Mode.OPEN\<close>, asks the owning
  group to open the wrapped editor and returns \<open>true\<close>, whatever the group's \<open>openEditor\<close>
  reports: the workbench is the one the group's call leaves, the boolean is always true.\<close>


theorem run_OPEN_returns_true:
  "run openEditor superRun OPEN context this w = (True, snd (openEditor (group this) (editor this) w))"
  by (simp add: run_def runOpen_def split_def)

theorem run_OPEN_returns_true_witness:
  "run (\<lambda>g ed (w::nat). (False, w)) (\<lambda>m (c::unit) w. (False, w)) OPEN () (newEditorPickerEntry edA 1) 0 = (True, 0)"
  using run_OPEN_returns_true [of "\<lambda>g ed (w::nat). (False, w)" "\<lambda>m (c::unit) w. (False, w)" "()" "newEditorPickerEntry edA 1" 0]
  by simp

text \<open>The claim as stated fails: with a group whose \<open>openEditor\<close> reports a failure,
  \<open>run\<close> still returns \<open>true\<close>, so the result is not the outcome of the delegation.\<close>


theorem run_OPEN_failure_not_surfaced:
  "fst (run (\<lambda>g ed (w::nat). (False, w)) (\<lambda>m (c::unit) w. (False, w)) OPEN () (newEditorPickerEntry edA 1) 0)
     \<noteq> fst ((\<lambda>g ed (w::nat). (False, w)) (group (newEditorPickerEntry edA 1)) (editor (newEditorPickerEntry edA 1)) 0)"
  by (simp add: run_def runOpen_def)

subsection \<open>Auto focus\<close>

text \<open>C8. \<open>ActiveEditorGroupPicker.getAutoFocus\<close> returns focus-first whenever the search
  string is non-empty or there is no quick-navigate configuration; otherwise focus-last if some
  quick-navigate keybinding has no chord part and has the shift modifier on its first part;
  otherwise focus-first (and not focus-second) when the active group counts exactly one editor
  and focus-second (and not focus-first) when it counts more than one.\<close>


theorem ActiveEditorGroupPicker_getAutoFocus_policy:
  "(searchValue \<noteq> [] \<or> quickNavigateConfiguration context = None \<longrightarrow>
      ActiveEditorGroupPicker_getAutoFocus svc searchValue context =
        \<lparr>autoFocusFirstEntry = Some True, autoFocusSecondEntry = None, autoFocusLastEntry = None\<rparr>)
   \<and> (searchValue = [] \<and> quickNavigateConfiguration context = Some conf \<longrightarrow>
        (if \<exists>k\<in>set (keybindings conf). snd (getParts k) = None \<and> shiftKey (fst (getParts k))
         then ActiveEditorGroupPicker_getAutoFocus svc searchValue context =
                \<lparr>autoFocusFirstEntry = None, autoFocusSecondEntry = None, autoFocusLastEntry = Some True\<rparr>
         else (count (groupObject svc (activeGroup svc)) = 1 \<longrightarrow>
                 ActiveEditorGroupPicker_getAutoFocus svc searchValue context =
                   \<lparr>autoFocusFirstEntry = Some True, autoFocusSecondEntry = Some False, autoFocusLastEntry = None\<rparr>)
            \<and> (count (groupObject svc (activeGroup svc)) > 1 \<longrightarrow>
                 ActiveEditorGroupPicker_getAutoFocus svc searchValue context =
                   \<lparr>autoFocusFirstEntry = Some False, autoFocusSecondEntry = Some True, autoFocusLastEntry = None\<rparr>)))"
  by (auto simp: ActiveEditorGroupPicker_getAutoFocus_def Let_def list_ex_iff split_def)

theorem ActiveEditorGroupPicker_getAutoFocus_policy_witness:
  "ActiveEditorGroupPicker_getAutoFocus exampleService ''foo'' \<lparr>quickNavigateConfiguration = Some \<lparr>keybindings = [shiftKeyBinding]\<rparr>\<rparr>
     = \<lparr>autoFocusFirstEntry = Some True, autoFocusSecondEntry = None, autoFocusLastEntry = None\<rparr>
   \<and> ActiveEditorGroupPicker_getAutoFocus exampleService [] \<lparr>quickNavigateConfiguration = None\<rparr>
     = \<lparr>autoFocusFirstEntry = Some True, autoFocusSecondEntry = None, autoFocusLastEntry = None\<rparr>
   \<and> ActiveEditorGroupPicker_getAutoFocus exampleService [] \<lparr>quickNavigateConfiguration = Some \<lparr>keybindings = [plainKey, shiftKeyBinding]\<rparr>\<rparr>
     = \<lparr>autoFocusFirstEntry = None, autoFocusSecondEntry = None, autoFocusLastEntry = Some True\<rparr>
   \<and> ActiveEditorGroupPicker_getAutoFocus exampleService [] \<lparr>quickNavigateConfiguration = Some \<lparr>keybindings = [plainKey, shiftChord]\<rparr>\<rparr>
     = \<lparr>autoFocusFirstEntry = Some False, autoFocusSecondEntry = Some True, autoFocusLastEntry = None\<rparr>
   \<and> ActiveEditorGroupPicker_getAutoFocus (exampleService\<lparr>activeGroup := 2\<rparr>) [] \<lparr>quickNavigateConfiguration = Some \<lparr>keybindings = [plainKey, shiftChord]\<rparr>\<rparr>
     = \<lparr>autoFocusFirstEntry = Some True, autoFocusSecondEntry = Some False, autoFocusLastEntry = None\<rparr>"
  using ActiveEditorGroupPicker_getAutoFocus_policy [of "''foo''" "\<lparr>quickNavigateConfiguration = Some \<lparr>keybindings = [shiftKeyBinding]\<rparr>\<rparr>" exampleService "\<lparr>keybindings = [shiftKeyBinding]\<rparr>"]
    ActiveEditorGroupPicker_getAutoFocus_policy [of "[]" "\<lparr>quickNavigateConfiguration = None\<rparr>" exampleService "\<lparr>keybindings = []\<rparr>"]
    ActiveEditorGroupPicker_getAutoFocus_policy [of "[]" "\<lparr>quickNavigateConfiguration = Some \<lparr>keybindings = [plainKey, shiftKeyBinding]\<rparr>\<rparr>" exampleService "\<lparr>keybindings = [plainKey, shiftKeyBinding]\<rparr>"]
    ActiveEditorGroupPicker_getAutoFocus_policy [of "[]" "\<lparr>quickNavigateConfiguration = Some \<lparr>keybindings = [plainKey, shiftChord]\<rparr>\<rparr>" exampleService "\<lparr>keybindings = [plainKey, shiftChord]\<rparr>"]
    ActiveEditorGroupPicker_getAutoFocus_policy [of "[]" "\<lparr>quickNavigateConfiguration = Some \<lparr>keybindings = [plainKey, shiftChord]\<rparr>\<rparr>" "exampleService\<lparr>activeGroup := 2\<rparr>" "\<lparr>keybindings = [plainKey, shiftChord]\<rparr>"]
  by (simp add: exampleService_def exampleGroup_def plainKey_def shiftKeyBinding_def shiftChord_def)

text \<open>C9 (as amended). \<open>AllEditorsPicker.getAutoFocus\<close> returns focus-first for every
  non-empty search string, which is also what the single-group picker returns there; for an
  empty search string it returns what the inherited \<open>getAutoFocus\<close> of \<open>QuickOpenHandler\<close>
  returns (\<open>AllEditorsPicker\<close> extends \<open>BaseEditorPicker\<close>, not the single-group picker).\<close>


theorem AllEditorsPicker_getAutoFocus_policy:
  "(searchValue \<noteq> [] \<longrightarrow>
      AllEditorsPicker_getAutoFocus superGetAutoFocus searchValue context =
        \<lparr>autoFocusFirstEntry = Some True, autoFocusSecondEntry = None, autoFocusLastEntry = None\<rparr>
      \<and> AllEditorsPicker_getAutoFocus superGetAutoFocus searchValue context =
          ActiveEditorGroupPicker_getAutoFocus svc searchValue context)
   \<and> (searchValue = [] \<longrightarrow>
        AllEditorsPicker_getAutoFocus superGetAutoFocus searchValue context = superGetAutoFocus searchValue context)"
  by (simp add: AllEditorsPicker_getAutoFocus_def ActiveEditorGroupPicker_getAutoFocus_def)

theorem AllEditorsPicker_getAutoFocus_policy_witness:
  "AllEditorsPicker_getAutoFocus (\<lambda>s c. \<lparr>autoFocusFirstEntry = None, autoFocusSecondEntry = None, autoFocusLastEntry = None\<rparr>)
      ''foo'' \<lparr>quickNavigateConfiguration = Some \<lparr>keybindings = [plainKey]\<rparr>\<rparr>
     = \<lparr>autoFocusFirstEntry = Some True, autoFocusSecondEntry = None, autoFocusLastEntry = None\<rparr>
   \<and> AllEditorsPicker_getAutoFocus (\<lambda>s c. \<lparr>autoFocusFirstEntry = None, autoFocusSecondEntry = None, autoFocusLastEntry = None\<rparr>)
      [] \<lparr>quickNavigateConfiguration = Some \<lparr>keybindings = [plainKey]\<rparr>\<rparr>
     = \<lparr>autoFocusFirstEntry = None, autoFocusSecondEntry = None, autoFocusLastEntry = None\<rparr>"
  using AllEditorsPicker_getAutoFocus_policy [of "''foo''" "\<lambda>s c. \<lparr>autoFocusFirstEntry = None, autoFocusSecondEntry = None, autoFocusLastEntry = None\<rparr>" "\<lparr>quickNavigateConfiguration = Some \<lparr>keybindings = [plainKey]\<rparr>\<rparr>" exampleService]
    AllEditorsPicker_getAutoFocus_policy [of "[]" "\<lambda>s c. \<lparr>autoFocusFirstEntry = None, autoFocusSecondEntry = None, autoFocusLastEntry = None\<rparr>" "\<lparr>quickNavigateConfiguration = Some \<lparr>keybindings = [plainKey]\<rparr>\<rparr>" exampleService]
  by simp

text \<open>The claim as stated fails: for the empty search string and a quick-navigate
  configuration with a plain keybinding, the single-group policy depends on the number of
  editors of the active group (focus-second for two editors, focus-first for one), which the
  inherited method is not given; no inherited method makes the all-groups picker agree with
  the single-group policy on both services.\<close>


theorem AllEditorsPicker_getAutoFocus_not_single_group:
  "\<not> (\<exists>superGetAutoFocus.
        AllEditorsPicker_getAutoFocus superGetAutoFocus [] \<lparr>quickNavigateConfiguration = Some \<lparr>keybindings = [plainKey]\<rparr>\<rparr>
          = ActiveEditorGroupPicker_getAutoFocus exampleService [] \<lparr>quickNavigateConfiguration = Some \<lparr>keybindings = [plainKey]\<rparr>\<rparr>
      \<and> AllEditorsPicker_getAutoFocus superGetAutoFocus [] \<lparr>quickNavigateConfiguration = Some \<lparr>keybindings = [plainKey]\<rparr>\<rparr>
          = ActiveEditorGroupPicker_getAutoFocus (exampleService\<lparr>activeGroup := 2\<rparr>) [] \<lparr>quickNavigateConfiguration = Some \<lparr>keybindings = [plainKey]\<rparr>\<rparr>)"
  by (simp add: AllEditorsPicker_getAutoFocus_def ActiveEditorGroupPicker_getAutoFocus_def
      exampleService_def exampleGroup_def plainKey_def)

subsection \<open>The example, evaluated\<close>

lemma example_query_fo:
  "fst (getResults exampleScorer exampleService exampleEntries ''fo'' newBaseEditorPicker)
     = Some (QuickOpenModel exampleResultFo)"
  by code_simp

lemma example_query_fo_closed:
  "fst (getResults exampleScorer exampleService exampleEntries ''fo'' (onClose True stalePicker))
     = Some (QuickOpenModel exampleResultFo)"
  by code_simp

lemma example_query_blank:
  "fst (getResults exampleScorer exampleService exampleEntries ''  '' newBaseEditorPicker)
     = Some (QuickOpenModel exampleResultBlank)"
  by code_simp

lemma example_query_active:
  "fst (ActiveEditorGroupPicker_getResults exampleScorer exampleService '' '' newBaseEditorPicker)
     = Some (QuickOpenModel exampleResultActive)"
  by code_simp

lemma example_ne: "exampleEntries \<noteq> []"
  by (simp add: exampleEntries_def exampleCandidates_def)

lemma example_fo: "value' (prepareQuery ''fo'') \<noteq> []"
  by (simp add: prepareQuery_def trim_def isWhitespace_def)

lemma example_blank: "\<forall>ch\<in>set ''  ''. isWhitespace ch"
  by (simp add: isWhitespace_def)

lemma example_groups: "\<forall>e\<in>set exampleEntries. group e \<in> set (getGroups exampleService CREATION_TIME)"
  by (simp add: exampleEntries_def exampleCandidates_def exampleService_def newEditorPickerEntry_def)

subsection \<open>The results of a query\<close>

lemma trim_whitespace: "\<forall>ch\<in>set s. isWhitespace ch \<Longrightarrow> value' (prepareQuery s) = []"
proof -
  assume "\<forall>ch\<in>set s. isWhitespace ch"
  then have "dropWhile isWhitespace s = []" by (induction s) auto
  then show "value' (prepareQuery s) = []"
    by (simp add: prepareQuery_def trim_def del: dropWhile_eq_Nil_conv)
qed

lemma groupEntries_nth_fields:
  assumes "i < length xs"
  shows "editor (groupEntries svc lg xs ! i) = editor (xs ! i)"
    and "group (groupEntries svc lg xs ! i) = group (xs ! i)"
    and "labelHighlights (groupEntries svc lg xs ! i) = labelHighlights (xs ! i)"
    and "descriptionHighlights (groupEntries svc lg xs ! i) = descriptionHighlights (xs ! i)"
  using assms by (simp_all add: groupEntries_nth Let_def setShowBorder_def setGroupLabel_def)

lemma sortsBefore_cong:
  "editor a = editor a' \<Longrightarrow> group a = group a' \<Longrightarrow> editor b = editor b' \<Longrightarrow> group b = group b' \<Longrightarrow>
   sortsBefore sc gs c q a b = sortsBefore sc gs c q a' b'"
  using cachedScore_cong [of a a' sc c q] cachedScore_cong [of b b' sc c q]
  by (simp add: sortsBefore_def)

lemma groupEntries_sorted:
  "sorted_wrt (sortsBefore sc gs c q) (groupEntries svc lg xs) = sorted_wrt (sortsBefore sc gs c q) xs"
proof -
  have "\<And>i j. i < j \<Longrightarrow> j < length xs \<Longrightarrow>
      sortsBefore sc gs c q (groupEntries svc lg xs ! i) (groupEntries svc lg xs ! j)
        = sortsBefore sc gs c q (xs ! i) (xs ! j)"
    by (intro sortsBefore_cong) (simp_all add: groupEntries_nth_fields)
  then show ?thesis
    by (simp add: sorted_wrt_iff_nth_less length_groupEntries)
qed

text \<open>The entries of the result, whether or not the grouping step ran.\<close>

lemma getResults_entries:
  assumes "es \<noteq> []"
  shows "\<exists>m. getResults sc svc es s p = (Some m, p\<lparr>scorerCache := snd (filterEntries sc (prepareQuery s) es (scorerCache p))\<rparr>)
     \<and> entries m = (if groupCount svc > 1 then groupEntries svc None (sortedEntries sc svc es s (scorerCache p))
                    else sortedEntries sc svc es s (scorerCache p))"
  by (simp add: getResults_unfold [OF assms])

lemma result_keys:
  "map (\<lambda>e. (editor e, group e)) (if b then groupEntries svc None xs else xs) = map (\<lambda>e. (editor e, group e)) xs"
  by (simp add: groupEntries_keys)

lemma result_member:
  assumes "r \<in> set (if b then groupEntries svc None xs else xs)"
  shows "\<exists>x\<in>set xs. editor r = editor x \<and> group r = group x \<and>
     labelHighlights r = labelHighlights x \<and> descriptionHighlights r = descriptionHighlights x"
  using assms groupEntries_member [of r svc None xs] by (cases b) auto

text \<open>C1. For a non-empty query, \<open>getResults\<close> keeps exactly the candidates whose score
  against the query, as \<open>scoreItem\<close> returns it on the picker's cache, is not zero: the
  entries of the result are, as a multiset of (editor, group), the candidates with a nonzero
  score; every entry of the result has a nonzero score and carries the score's \<open>labelMatch\<close>
  and \<open>descriptionMatch\<close> as its highlights; no candidate with score zero is in the result.\<close>

theorem getResults_filters_nonzero:
  assumes ne: "editorEntries \<noteq> []" and q: "value' (prepareQuery searchValue) \<noteq> []"
  shows "\<exists>m this'. getResults sc svc editorEntries searchValue this = (Some m, this')
     \<and> mset (map (\<lambda>e. (editor e, group e)) (entries m))
         = mset (map (\<lambda>e. (editor e, group e))
             (filter (\<lambda>e. score (cachedScore sc (scorerCache this) (prepareQuery searchValue) e) \<noteq> 0) editorEntries))
     \<and> (\<forall>r\<in>set (entries m).
           score (cachedScore sc (scorerCache this) (prepareQuery searchValue) r) \<noteq> 0
           \<and> labelHighlights r = labelMatch (cachedScore sc (scorerCache this) (prepareQuery searchValue) r)
           \<and> descriptionHighlights r = descriptionMatch (cachedScore sc (scorerCache this) (prepareQuery searchValue) r))
     \<and> (\<forall>e\<in>set editorEntries.
           score (cachedScore sc (scorerCache this) (prepareQuery searchValue) e) = 0 \<longrightarrow>
           (editor e, group e) \<notin> (\<lambda>r. (editor r, group r)) ` set (entries m))"
proof -
  let ?q = "prepareQuery searchValue"
  let ?c = "scorerCache this"
  let ?srt = "sortedEntries sc svc editorEntries searchValue ?c"
  obtain m where res: "getResults sc svc editorEntries searchValue this
        = (Some m, this\<lparr>scorerCache := snd (filterEntries sc ?q editorEntries ?c)\<rparr>)"
    and ents: "entries m = (if groupCount svc > 1 then groupEntries svc None ?srt else ?srt)"
    using getResults_entries [OF ne] by blast
  have keys: "map (\<lambda>e. (editor e, group e)) (entries m) = map (\<lambda>e. (editor e, group e)) ?srt"
    unfolding ents by (rule result_keys)
  have "mset (map (\<lambda>e. (editor e, group e)) ?srt)
      = mset (map (\<lambda>e. (editor e, group e))
          (map (\<lambda>e. setHighlights (labelMatch (cachedScore sc ?c ?q e)) (descriptionMatch (cachedScore sc ?c ?q e)) e)
            (filter (\<lambda>e. score (cachedScore sc ?c ?q e) \<noteq> 0) editorEntries)))"
    using sortedEntries_mset [OF q, of sc svc editorEntries ?c] by (metis mset_map)
  also have "\<dots> = mset (map (\<lambda>e. (editor e, group e))
        (filter (\<lambda>e. score (cachedScore sc ?c ?q e) \<noteq> 0) editorEntries))"
    by (simp add: setHighlights_def comp_def)
  finally have perm: "mset (map (\<lambda>e. (editor e, group e)) (entries m))
      = mset (map (\<lambda>e. (editor e, group e))
          (filter (\<lambda>e. score (cachedScore sc ?c ?q e) \<noteq> 0) editorEntries))"
    using keys by simp
  have each: "score (cachedScore sc ?c ?q r) \<noteq> 0
           \<and> labelHighlights r = labelMatch (cachedScore sc ?c ?q r)
           \<and> descriptionHighlights r = descriptionMatch (cachedScore sc ?c ?q r)"
    if "r \<in> set (entries m)" for r
  proof -
    have "r \<in> set (if groupCount svc > 1 then groupEntries svc None ?srt else ?srt)"
      using that ents by simp
    from result_member [OF this]
    obtain x where x: "x \<in> set ?srt" "editor r = editor x" "group r = group x"
        "labelHighlights r = labelHighlights x" "descriptionHighlights r = descriptionHighlights x"
      by blast
    obtain e where e: "e \<in> set editorEntries" "editor x = editor e" "group x = group e"
        "score (cachedScore sc ?c ?q e) \<noteq> 0"
        "labelHighlights x = labelMatch (cachedScore sc ?c ?q e)"
        "descriptionHighlights x = descriptionMatch (cachedScore sc ?c ?q e)"
      using sortedEntries_member [OF x(1)] q by auto
    have "cachedScore sc ?c ?q r = cachedScore sc ?c ?q e"
      using x e by (intro cachedScore_cong) simp_all
    with x e show ?thesis by simp
  qed
  have absent: "(editor e, group e) \<notin> (\<lambda>r. (editor r, group r)) ` set (entries m)"
    if "e \<in> set editorEntries" "score (cachedScore sc ?c ?q e) = 0" for e
  proof
    assume "(editor e, group e) \<in> (\<lambda>r. (editor r, group r)) ` set (entries m)"
    then obtain r where r: "r \<in> set (entries m)" "editor r = editor e" "group r = group e" by auto
    have "cachedScore sc ?c ?q r = cachedScore sc ?c ?q e"
      using r by (intro cachedScore_cong) simp_all
    with each [OF r(1)] that(2) show False by simp
  qed
  from res perm each absent show ?thesis by blast
qed

theorem getResults_filters_nonzero_witness:
  "\<exists>m this'. getResults exampleScorer exampleService exampleEntries ''fo'' newBaseEditorPicker = (Some m, this')
     \<and> entries m = exampleResultFo
     \<and> mset (map (\<lambda>e. (editor e, group e)) (entries m))
         = mset (map (\<lambda>e. (editor e, group e))
             (filter (\<lambda>e. score (cachedScore exampleScorer (scorerCache newBaseEditorPicker) (prepareQuery ''fo'') e) \<noteq> 0)
                exampleEntries))"
proof -
  from getResults_filters_nonzero [OF example_ne example_fo, of exampleScorer exampleService newBaseEditorPicker]
  obtain m this' where r: "getResults exampleScorer exampleService exampleEntries ''fo'' newBaseEditorPicker = (Some m, this')"
    and p: "mset (map (\<lambda>e. (editor e, group e)) (entries m))
         = mset (map (\<lambda>e. (editor e, group e))
             (filter (\<lambda>e. score (cachedScore exampleScorer (scorerCache newBaseEditorPicker) (prepareQuery ''fo'') e) \<noteq> 0)
                exampleEntries))"
    by blast
  from r example_query_fo have "entries m = exampleResultFo" by auto
  with r p show ?thesis by blast
qed

lemma fresh_entries:
  assumes "es = map (\<lambda>(ed, g). newEditorPickerEntry ed g) candidates"
  shows "map (\<lambda>e. (editor e, group e)) es = candidates"
    and "\<forall>e\<in>set es. labelHighlights e = None \<and> descriptionHighlights e = None
           \<and> groupLabel e = None \<and> withBorder e = None"
    and "(es = []) = (candidates = [])"
  unfolding assms by (simp_all add: newEditorPickerEntry_def split_def comp_def)

lemma getResults_empty_query_fresh:
  assumes ws: "\<forall>ch\<in>set searchValue. isWhitespace ch"
    and fresh: "editorEntries = map (\<lambda>(ed, g). newEditorPickerEntry ed g) candidates"
  shows "(candidates = [] \<longrightarrow> getResults sc svc editorEntries searchValue this = (None, this))
    \<and> (candidates \<noteq> [] \<longrightarrow>
         (\<exists>m. getResults sc svc editorEntries searchValue this = (Some m, this)
            \<and> map (\<lambda>e. (editor e, group e)) (entries m) = candidates
            \<and> (\<forall>r\<in>set (entries m). labelHighlights r = None \<and> descriptionHighlights r = None)))"
proof (intro conjI impI)
  assume "candidates = []"
  then show "getResults sc svc editorEntries searchValue this = (None, this)"
    by (simp add: fresh getResults_def)
next
  assume "candidates \<noteq> []"
  then have ne: "editorEntries \<noteq> []" using fresh_entries(3) [OF fresh] by simp
  have q: "value' (prepareQuery searchValue) = []" using ws by (rule trim_whitespace)
  have srt: "sortedEntries sc svc editorEntries searchValue (scorerCache this) = editorEntries"
    using q by (rule sortedEntries_empty_query)
  obtain m where res: "getResults sc svc editorEntries searchValue this
        = (Some m, this\<lparr>scorerCache := snd (filterEntries sc (prepareQuery searchValue) editorEntries (scorerCache this))\<rparr>)"
    and ents: "entries m = (if groupCount svc > 1 then groupEntries svc None editorEntries else editorEntries)"
    using getResults_entries [OF ne, of sc svc searchValue this] unfolding srt by blast
  have res': "getResults sc svc editorEntries searchValue this = (Some m, this)"
    using res by (simp add: filterEntries_empty_query [OF q])
  have keys: "map (\<lambda>e. (editor e, group e)) (entries m) = candidates"
    unfolding ents result_keys by (rule fresh_entries(1) [OF fresh])
  have hl: "\<forall>r\<in>set (entries m). labelHighlights r = None \<and> descriptionHighlights r = None"
  proof
    fix r assume "r \<in> set (entries m)"
    then have "r \<in> set (if groupCount svc > 1 then groupEntries svc None editorEntries else editorEntries)"
      using ents by simp
    from result_member [OF this] fresh_entries(2) [OF fresh]
    show "labelHighlights r = None \<and> descriptionHighlights r = None" by auto
  qed
  from res' keys hl
  show "\<exists>m. getResults sc svc editorEntries searchValue this = (Some m, this)
            \<and> map (\<lambda>e. (editor e, group e)) (entries m) = candidates
            \<and> (\<forall>r\<in>set (entries m). labelHighlights r = None \<and> descriptionHighlights r = None)"
    by blast
qed

lemma result_nth_fields:
  assumes "i < length xs"
  shows "editor ((if b then groupEntries svc None xs else xs) ! i) = editor (xs ! i)"
    and "group ((if b then groupEntries svc None xs else xs) ! i) = group (xs ! i)"
  using assms by (simp_all add: groupEntries_nth_fields)

lemma result_sorted:
  "sorted_wrt (sortsBefore sc gs c q) (if b then groupEntries svc None xs else xs)
     = sorted_wrt (sortsBefore sc gs c q) xs"
  by (simp add: groupEntries_sorted)

text \<open>C3. For a non-empty query, with every candidate's group among the groups by creation
  time, the result is sorted by \<open>sortsBefore\<close>: of two entries of different groups the one
  of the older group comes first, whatever the scores (the comparison of \<open>entries.sort\<close>
  returns the difference of the creation indices and does not touch the scorer or the cache);
  of two entries of one group the one with the higher score comes first, the comparison being
  the scorer's \<open>compareItemsByScore\<close> on the same cache. Hence the entries of one group are
  contiguous and the groups appear in ascending creation order.\<close>

theorem getResults_sorted_by_group_then_score:
  assumes ne: "editorEntries \<noteq> []" and q: "value' (prepareQuery searchValue) \<noteq> []"
    and mem: "\<forall>e\<in>set editorEntries. group e \<in> set (getGroups svc CREATION_TIME)"
  shows "\<exists>m this'. getResults sc svc editorEntries searchValue this = (Some m, this')
     \<and> sorted_wrt (sortsBefore sc (getGroups svc CREATION_TIME) (scorerCache this) (prepareQuery searchValue)) (entries m)
     \<and> (\<forall>i j. i < j \<and> j < length (entries m) \<longrightarrow>
           (group (entries m ! i) \<noteq> group (entries m ! j) \<longrightarrow>
              indexOf (getGroups svc CREATION_TIME) (group (entries m ! i))
                < indexOf (getGroups svc CREATION_TIME) (group (entries m ! j)))
         \<and> (group (entries m ! i) = group (entries m ! j) \<longrightarrow>
              score (cachedScore sc (scorerCache this) (prepareQuery searchValue) (entries m ! j))
                \<le> score (cachedScore sc (scorerCache this) (prepareQuery searchValue) (entries m ! i))))
     \<and> (\<forall>i j k. i < j \<and> j < k \<and> k < length (entries m) \<and> group (entries m ! i) = group (entries m ! k) \<longrightarrow>
           group (entries m ! j) = group (entries m ! i))
     \<and> (\<forall>a b cache. group a \<noteq> group b \<longrightarrow>
           sortCompare sc (getGroups svc CREATION_TIME) (prepareQuery searchValue) a b cache
             = (indexOf (getGroups svc CREATION_TIME) (group a) - indexOf (getGroups svc CREATION_TIME) (group b), cache))
     \<and> (\<forall>a b cache. group a = group b \<longrightarrow>
           sortCompare sc (getGroups svc CREATION_TIME) (prepareQuery searchValue) a b cache
             = compareItemsByScore sc a b (prepareQuery searchValue) cache)"
proof -
  let ?q = "prepareQuery searchValue"
  let ?c = "scorerCache this"
  let ?gs = "getGroups svc CREATION_TIME"
  let ?srt = "sortedEntries sc svc editorEntries searchValue ?c"
  obtain m where res: "getResults sc svc editorEntries searchValue this
        = (Some m, this\<lparr>scorerCache := snd (filterEntries sc ?q editorEntries ?c)\<rparr>)"
    and ents: "entries m = (if groupCount svc > 1 then groupEntries svc None ?srt else ?srt)"
    using getResults_entries [OF ne] by blast
  have sorted: "sorted_wrt (sortsBefore sc ?gs ?c ?q) (entries m)"
    unfolding ents result_sorted by (rule sortedEntries_sorted [OF q mem])
  have len: "length (entries m) = length ?srt"
    unfolding ents by (simp add: length_groupEntries)
  have in_gs: "group (entries m ! i) \<in> set ?gs" if "i < length (entries m)" for i
  proof -
    have "?srt ! i \<in> set ?srt" using that len by simp
    from sortedEntries_member [OF this] mem have "group (?srt ! i) \<in> set ?gs" by auto
    then show ?thesis unfolding ents using that len by (simp add: result_nth_fields)
  qed
  have pair: "sortsBefore sc ?gs ?c ?q (entries m ! i) (entries m ! j)" if "i < j" "j < length (entries m)" for i j
    using sorted that by (simp add: sorted_wrt_iff_nth_less)
  have rank: "indexOf ?gs (group (entries m ! i)) \<le> indexOf ?gs (group (entries m ! j))"
    if "i < j" "j < length (entries m)" for i j
    using pair [OF that] by (auto simp: sortsBefore_def)
  have order: "(group (entries m ! i) \<noteq> group (entries m ! j) \<longrightarrow>
              indexOf ?gs (group (entries m ! i)) < indexOf ?gs (group (entries m ! j)))
         \<and> (group (entries m ! i) = group (entries m ! j) \<longrightarrow>
              score (cachedScore sc ?c ?q (entries m ! j)) \<le> score (cachedScore sc ?c ?q (entries m ! i)))"
    if "i < j" "j < length (entries m)" for i j
    using pair [OF that] by (auto simp: sortsBefore_def)
  have contiguous: "group (entries m ! j) = group (entries m ! i)"
    if "i < j" "j < k" "k < length (entries m)" "group (entries m ! i) = group (entries m ! k)" for i j k
  proof -
    have "indexOf ?gs (group (entries m ! i)) \<le> indexOf ?gs (group (entries m ! j))"
      using rank [of i j] that by simp
    moreover have "indexOf ?gs (group (entries m ! j)) \<le> indexOf ?gs (group (entries m ! k))"
      using rank [of j k] that by simp
    ultimately have e: "indexOf ?gs (group (entries m ! j)) = indexOf ?gs (group (entries m ! i))"
      using that(4) by simp
    have a: "group (entries m ! j) \<in> set ?gs" using in_gs that by simp
    have b: "group (entries m ! i) \<in> set ?gs" using in_gs that by simp
    show ?thesis by (rule indexOf_inj [OF a b e])
  qed
  have cmp1: "\<forall>a b cache. group a \<noteq> group b \<longrightarrow>
           sortCompare sc ?gs ?q a b cache = (indexOf ?gs (group a) - indexOf ?gs (group b), cache)"
    by (simp add: sortCompare_def)
  have cmp2: "\<forall>a b cache. group a = group b \<longrightarrow>
           sortCompare sc ?gs ?q a b cache = compareItemsByScore sc a b ?q cache"
    by (simp add: sortCompare_def)
  from res sorted order contiguous cmp1 cmp2 show ?thesis by blast
qed

theorem getResults_sorted_by_group_then_score_witness:
  "\<exists>m this'. getResults exampleScorer exampleService exampleEntries ''fo'' newBaseEditorPicker = (Some m, this')
     \<and> entries m = exampleResultFo
     \<and> sorted_wrt (sortsBefore exampleScorer (getGroups exampleService CREATION_TIME)
            (scorerCache newBaseEditorPicker) (prepareQuery ''fo'')) (entries m)"
proof -
  from getResults_sorted_by_group_then_score [OF example_ne example_fo example_groups, of exampleScorer newBaseEditorPicker]
  obtain m this' where r: "getResults exampleScorer exampleService exampleEntries ''fo'' newBaseEditorPicker = (Some m, this')"
    and p: "sorted_wrt (sortsBefore exampleScorer (getGroups exampleService CREATION_TIME)
            (scorerCache newBaseEditorPicker) (prepareQuery ''fo'')) (entries m)"
    by blast
  from r example_query_fo have "entries m = exampleResultFo" by auto
  with r p show ?thesis by blast
qed

text \<open>C2. For an empty or whitespace-only search string, \<open>getResults\<close> over freshly built
  entries returns all candidates in their original order (nothing is sorted), with no
  highlights on any entry, and leaves the score cache as it was. For no candidates at all the
  result is the promise of \<open>null\<close>, the empty result.\<close>

theorem getResults_whitespace_query:
  assumes ws: "\<forall>ch\<in>set searchValue. isWhitespace ch"
    and fresh: "editorEntries = map (\<lambda>(ed, g). newEditorPickerEntry ed g) candidates"
  shows "(candidates = [] \<longrightarrow> getResults sc svc editorEntries searchValue this = (None, this))
    \<and> (candidates \<noteq> [] \<longrightarrow>
         (\<exists>m. getResults sc svc editorEntries searchValue this = (Some m, this)
            \<and> map (\<lambda>e. (editor e, group e)) (entries m) = candidates
            \<and> (\<forall>r\<in>set (entries m). labelHighlights r = None \<and> descriptionHighlights r = None)))"
  using ws fresh by (rule getResults_empty_query_fresh)

theorem getResults_whitespace_query_witness:
  "\<exists>m. getResults exampleScorer exampleService exampleEntries ''  '' newBaseEditorPicker = (Some m, newBaseEditorPicker)
     \<and> entries m = exampleResultBlank
     \<and> map (\<lambda>e. (editor e, group e)) (entries m) = exampleCandidates"
proof -
  have "exampleCandidates \<noteq> []" by (simp add: exampleCandidates_def)
  with getResults_whitespace_query [OF example_blank exampleEntries_def, of exampleScorer exampleService newBaseEditorPicker]
  obtain m where r: "getResults exampleScorer exampleService exampleEntries ''  '' newBaseEditorPicker = (Some m, newBaseEditorPicker)"
    and k: "map (\<lambda>e. (editor e, group e)) (entries m) = exampleCandidates"
    by blast
  from r example_query_blank have "entries m = exampleResultBlank" by auto
  with r k show ?thesis by blast
qed

text \<open>C4 (as amended). The grouping step runs exactly when the group service counts more than
  one group (\<open>editorGroupService.count > 1\<close>), whatever the number of distinct groups among
  the surviving entries. When it does not run no entry has a group label or a border. When it
  runs, the first entry gets its group's label and \<open>showBorder = false\<close>, never \<open>true\<close>; every
  later entry whose predecessor belongs to a different group gets its group's label and
  \<open>showBorder = true\<close>; every entry that continues its predecessor's group gets neither.\<close>

theorem getResults_group_annotation:
  assumes fresh: "editorEntries = map (\<lambda>(ed, g). newEditorPickerEntry ed g) candidates"
    and ne: "candidates \<noteq> []"
  shows "\<exists>m this'. getResults sc svc editorEntries searchValue this = (Some m, this')
     \<and> (\<not> 1 < groupCount svc \<longrightarrow> (\<forall>r\<in>set (entries m). groupLabel r = None \<and> withBorder r = None))
     \<and> (1 < groupCount svc \<longrightarrow>
          (entries m \<noteq> [] \<longrightarrow>
             groupLabel (entries m ! 0) = Some (label (groupObject svc (group (entries m ! 0))))
             \<and> withBorder (entries m ! 0) = Some False)
        \<and> (\<forall>i. Suc i < length (entries m) \<longrightarrow>
             (if group (entries m ! Suc i) \<noteq> group (entries m ! i)
              then groupLabel (entries m ! Suc i) = Some (label (groupObject svc (group (entries m ! Suc i))))
                   \<and> withBorder (entries m ! Suc i) = Some True
              else groupLabel (entries m ! Suc i) = None \<and> withBorder (entries m ! Suc i) = None)))"
proof -
  let ?srt = "sortedEntries sc svc editorEntries searchValue (scorerCache this)"
  have es: "editorEntries \<noteq> []" using fresh_entries(3) [OF fresh] ne by simp
  obtain m where res: "getResults sc svc editorEntries searchValue this
        = (Some m, this\<lparr>scorerCache := snd (filterEntries sc (prepareQuery searchValue) editorEntries (scorerCache this))\<rparr>)"
    and ents: "entries m = (if groupCount svc > 1 then groupEntries svc None ?srt else ?srt)"
    using getResults_entries [OF es] by blast
  have plain: "groupLabel x = None \<and> withBorder x = None" if "x \<in> set ?srt" for x
    using sortedEntries_member [OF that] fresh_entries(2) [OF fresh] by auto
  have nth_plain: "groupLabel (?srt ! i) = None \<and> withBorder (?srt ! i) = None" if "i < length ?srt" for i
    using plain [of "?srt ! i"] that by simp
  have off: "\<forall>r\<in>set (entries m). groupLabel r = None \<and> withBorder r = None" if "\<not> 1 < groupCount svc"
    using that plain by (simp add: ents)
  have first: "groupLabel (entries m ! 0) = Some (label (groupObject svc (group (entries m ! 0))))
             \<and> withBorder (entries m ! 0) = Some False"
    if "1 < groupCount svc" "entries m \<noteq> []"
  proof -
    have "0 < length ?srt" using that by (auto simp: ents)
    then show ?thesis using that(1)
      by (simp add: ents groupEntries_nth Let_def setShowBorder_def setGroupLabel_def)
  qed
  have later: "(if group (entries m ! Suc i) \<noteq> group (entries m ! i)
              then groupLabel (entries m ! Suc i) = Some (label (groupObject svc (group (entries m ! Suc i))))
                   \<and> withBorder (entries m ! Suc i) = Some True
              else groupLabel (entries m ! Suc i) = None \<and> withBorder (entries m ! Suc i) = None)"
    if "1 < groupCount svc" "Suc i < length (entries m)" for i
  proof -
    have len: "Suc i < length ?srt" using that by (simp add: ents length_groupEntries)
    then have i: "i < length ?srt" by simp
    show ?thesis using that(1) nth_plain [OF len]
      by (simp add: ents groupEntries_nth [OF len] groupEntries_nth_fields(2) [OF i]
          Let_def setShowBorder_def setGroupLabel_def)
  qed
  from res off first later show ?thesis by blast
qed

theorem getResults_group_annotation_witness:
  "\<exists>m this'. getResults exampleScorer exampleService exampleEntries ''fo'' newBaseEditorPicker = (Some m, this')
     \<and> entries m = exampleResultFo
     \<and> groupLabel (entries m ! 0) = Some (label (groupObject exampleService (group (entries m ! 0))))
     \<and> withBorder (entries m ! 0) = Some False
     \<and> groupLabel (entries m ! 1) = None \<and> withBorder (entries m ! 1) = None
     \<and> groupLabel (entries m ! 2) = Some (label (groupObject exampleService (group (entries m ! 2))))
     \<and> withBorder (entries m ! 2) = Some True"
proof -
  have cands: "exampleCandidates \<noteq> []" by (simp add: exampleCandidates_def)
  have cnt: "1 < groupCount exampleService" by (simp add: exampleService_def)
  from getResults_group_annotation [OF exampleEntries_def cands, of exampleScorer exampleService "''fo''" newBaseEditorPicker] cnt
  obtain m this' where r: "getResults exampleScorer exampleService exampleEntries ''fo'' newBaseEditorPicker = (Some m, this')"
    and first: "entries m \<noteq> [] \<longrightarrow>
             groupLabel (entries m ! 0) = Some (label (groupObject exampleService (group (entries m ! 0))))
             \<and> withBorder (entries m ! 0) = Some False"
    and later: "\<forall>i. Suc i < length (entries m) \<longrightarrow>
             (if group (entries m ! Suc i) \<noteq> group (entries m ! i)
              then groupLabel (entries m ! Suc i) = Some (label (groupObject exampleService (group (entries m ! Suc i))))
                   \<and> withBorder (entries m ! Suc i) = Some True
              else groupLabel (entries m ! Suc i) = None \<and> withBorder (entries m ! Suc i) = None)"
    by blast
  from r example_query_fo have e: "entries m = exampleResultFo" by auto
  have len: "length (entries m) = 3" by (simp add: e exampleResultFo_def)
  have g: "group (entries m ! 0) = 1" "group (entries m ! 1) = 1" "group (entries m ! 2) = 2"
    by (simp_all add: e exampleResultFo_def)
  have a0: "groupLabel (entries m ! 0) = Some (label (groupObject exampleService (group (entries m ! 0))))
             \<and> withBorder (entries m ! 0) = Some False"
    using first len by auto
  have a1: "groupLabel (entries m ! 1) = None \<and> withBorder (entries m ! 1) = None"
    using later [rule_format, of 0] len g by simp
  have a2: "groupLabel (entries m ! 2) = Some (label (groupObject exampleService (group (entries m ! 2))))
             \<and> withBorder (entries m ! 2) = Some True"
    using later [rule_format, of 1] len g by (simp add: numeral_2_eq_2)
  from r e a0 a1 a2 show ?thesis by blast
qed

text \<open>The claim as stated fails: in the example the service counts two groups, the
  single-group picker's entries all belong to group 1, and the first entry of the result still
  gets its group label and \<open>showBorder = false\<close>: the grouping step ran with one distinct
  group among the entries.\<close>

theorem getResults_annotates_single_group:
  "fst (ActiveEditorGroupPicker_getResults exampleScorer exampleService '' '' newBaseEditorPicker)
     = Some (QuickOpenModel exampleResultActive)
   \<and> card (group ` set exampleResultActive) = 1
   \<and> groupLabel (exampleResultActive ! 0) = Some ''Group 1''
   \<and> withBorder (exampleResultActive ! 0) = Some False"
  using example_query_active by (simp add: exampleResultActive_def)

lemma filterEntries_again:
  "filterEntries sc q es (snd (filterEntries sc q es c)) = filterEntries sc q es c"
proof (cases "value' q = []")
  case True
  then show ?thesis by (simp add: filterEntries_empty_query)
next
  case False
  let ?c1 = "snd (filterEntries sc q es c)"
  have "(\<lambda>e. cacheKey e q) ` set es \<subseteq> dom ?c1"
    by (auto simp: filterEntries_dom [OF False])
  then have "snd (filterEntries sc q es ?c1) = ?c1" by (rule filterEntries_hit)
  moreover have "fst (filterEntries sc q es ?c1) = fst (filterEntries sc q es c)"
    by (simp add: filterEntries_fst [OF False] filterEntries_cachedScore)
  ultimately show ?thesis by (simp add: prod_eq_iff)
qed

lemma sortedEntries_again:
  "sortedEntries sc svc es s (snd (filterEntries sc (prepareQuery s) es c)) = sortedEntries sc svc es s c"
  by (simp add: sortedEntries_def filterEntries_again)

text \<open>C7. Calling \<open>getResults\<close> a second time with the same search string, candidates and
  group service, on the picker as the first call left it, returns the same result (the same
  entries in the same order with the same highlights and group annotations) and leaves the
  picker, with its score cache, unchanged. (On one and the same picker state two calls agree
  because \<open>getResults\<close> is a function of its arguments.)\<close>

theorem getResults_twice:
  assumes "getResults sc svc editorEntries searchValue this = (result, this1)"
  shows "getResults sc svc editorEntries searchValue this1 = (result, this1)"
proof (cases "editorEntries = []")
  case True
  with assms show ?thesis by (simp add: getResults_def)
next
  case False
  let ?c1 = "snd (filterEntries sc (prepareQuery searchValue) editorEntries (scorerCache this))"
  have this1: "this1 = this\<lparr>scorerCache := ?c1\<rparr>"
    using assms by (simp add: getResults_unfold [OF False])
  have cache1: "scorerCache this1 = ?c1" by (simp add: this1)
  have "getResults sc svc editorEntries searchValue this1
      = (fst (getResults sc svc editorEntries searchValue this), this1\<lparr>scorerCache := ?c1\<rparr>)"
    by (simp add: getResults_unfold [OF False] cache1 sortedEntries_again filterEntries_again)
  also have "this1\<lparr>scorerCache := ?c1\<rparr> = this1" by (simp add: this1)
  finally show ?thesis using assms by simp
qed

theorem getResults_twice_witness:
  "fst (getResults exampleScorer exampleService exampleEntries ''fo'' newBaseEditorPicker)
     = Some (QuickOpenModel exampleResultFo)
   \<and> fst (getResults exampleScorer exampleService exampleEntries ''fo''
          (snd (getResults exampleScorer exampleService exampleEntries ''fo'' newBaseEditorPicker)))
     = Some (QuickOpenModel exampleResultFo)
   \<and> snd (getResults exampleScorer exampleService exampleEntries ''fo''
          (snd (getResults exampleScorer exampleService exampleEntries ''fo'' newBaseEditorPicker)))
     = snd (getResults exampleScorer exampleService exampleEntries ''fo'' newBaseEditorPicker)"
proof -
  have "getResults exampleScorer exampleService exampleEntries ''fo'' newBaseEditorPicker
      = (fst (getResults exampleScorer exampleService exampleEntries ''fo'' newBaseEditorPicker),
         snd (getResults exampleScorer exampleService exampleEntries ''fo'' newBaseEditorPicker))"
    by simp
  from getResults_twice [OF this] example_query_fo show ?thesis by simp
qed

lemma filterEntries_append:
  "filterEntries sc q (xs @ ys) c =
     (fst (filterEntries sc q xs c) @ fst (filterEntries sc q ys (snd (filterEntries sc q xs c))),
      snd (filterEntries sc q ys (snd (filterEntries sc q xs c))))"
  by (induction xs arbitrary: c) (simp_all add: split_def Let_def)

lemma filterEntries_cache_value:
  assumes "value' q \<noteq> []" "x \<in> set es"
  shows "snd (filterEntries sc q es c) (cacheKey x q) = Some (cachedScore sc c q x)"
proof -
  have "cacheKey x q \<in> dom (snd (filterEntries sc q es c))"
    using assms by (simp add: filterEntries_dom)
  then obtain v where v: "snd (filterEntries sc q es c) (cacheKey x q) = Some v" by blast
  then have "cachedScore sc (snd (filterEntries sc q es c)) q x = v" by (simp add: cachedScore_alt)
  then show ?thesis using v by (simp add: filterEntries_cachedScore)
qed

lemma cachedScore_empty:
  "cachedScore sc Map.empty q e = doScoreItem sc (getLabel e) (getDescription e) q"
  by (simp add: cachedScore_alt)

text \<open>C6. \<open>onClose\<close> replaces the score cache by the empty one: after it no key is found.
  A query issued then, with a non-empty query string, scores from scratch: when the filter
  reaches a candidate whose key did not occur before it in the candidate list (by
  \<open>filterEntries_append\<close> the cache is then the one the candidates before it left), the
  lookup misses and \<open>scoreItem\<close> computes the score and stores it; after the query the cache
  holds the computed score of every candidate, and the result's entries are the ones whose
  computed score is not zero, with the computed matches as highlights, whatever the picker's
  cache held before \<open>onClose\<close>.\<close>

theorem onClose_then_query_recomputes:
  assumes q: "value' (prepareQuery searchValue) \<noteq> []" and ne: "editorEntries \<noteq> []"
  shows "(\<forall>k. scorerCache (onClose canceled this) k = None)
    \<and> (\<forall>pre e post.
          editorEntries = pre @ e # post
          \<and> cacheKey e (prepareQuery searchValue) \<notin> (\<lambda>x. cacheKey x (prepareQuery searchValue)) ` set pre \<longrightarrow>
          snd (filterEntries sc (prepareQuery searchValue) pre (scorerCache (onClose canceled this)))
              (cacheKey e (prepareQuery searchValue)) = None
          \<and> scoreItem sc e (prepareQuery searchValue)
                 (snd (filterEntries sc (prepareQuery searchValue) pre (scorerCache (onClose canceled this))))
              = (doScoreItem sc (getLabel e) (getDescription e) (prepareQuery searchValue),
                 (snd (filterEntries sc (prepareQuery searchValue) pre (scorerCache (onClose canceled this))))
                   (cacheKey e (prepareQuery searchValue)
                      \<mapsto> doScoreItem sc (getLabel e) (getDescription e) (prepareQuery searchValue))))
    \<and> (\<exists>m this'. getResults sc svc editorEntries searchValue (onClose canceled this) = (Some m, this')
          \<and> (\<forall>e\<in>set editorEntries.
                scorerCache this' (cacheKey e (prepareQuery searchValue))
                  = Some (doScoreItem sc (getLabel e) (getDescription e) (prepareQuery searchValue)))
          \<and> (\<forall>r\<in>set (entries m).
                score (doScoreItem sc (getLabel r) (getDescription r) (prepareQuery searchValue)) \<noteq> 0
                \<and> labelHighlights r = labelMatch (doScoreItem sc (getLabel r) (getDescription r) (prepareQuery searchValue))
                \<and> descriptionHighlights r
                    = descriptionMatch (doScoreItem sc (getLabel r) (getDescription r) (prepareQuery searchValue))))"
proof -
  let ?q = "prepareQuery searchValue"
  let ?p = "onClose canceled this"
  have empty: "scorerCache ?p = Map.empty" by (simp add: onClose_def)
  have first: "\<forall>k. scorerCache ?p k = None" by (simp add: empty)
  have miss: "snd (filterEntries sc ?q pre (scorerCache ?p)) (cacheKey e ?q) = None
          \<and> scoreItem sc e ?q (snd (filterEntries sc ?q pre (scorerCache ?p)))
              = (doScoreItem sc (getLabel e) (getDescription e) ?q,
                 (snd (filterEntries sc ?q pre (scorerCache ?p)))
                   (cacheKey e ?q \<mapsto> doScoreItem sc (getLabel e) (getDescription e) ?q))"
    if "cacheKey e ?q \<notin> (\<lambda>x. cacheKey x ?q) ` set pre" for pre e
  proof -
    have "cacheKey e ?q \<notin> dom (snd (filterEntries sc ?q pre (scorerCache ?p)))"
      using that by (simp add: filterEntries_dom [OF q] empty)
    then have none: "snd (filterEntries sc ?q pre (scorerCache ?p)) (cacheKey e ?q) = None" by blast
    then show ?thesis by (simp add: scoreItem_def Let_def)
  qed
  let ?srt = "sortedEntries sc svc editorEntries searchValue (scorerCache ?p)"
  obtain m where res: "getResults sc svc editorEntries searchValue ?p
        = (Some m, ?p\<lparr>scorerCache := snd (filterEntries sc ?q editorEntries (scorerCache ?p))\<rparr>)"
    and ents: "entries m = (if groupCount svc > 1 then groupEntries svc None ?srt else ?srt)"
    using getResults_entries [OF ne] by blast
  have stored: "\<forall>e\<in>set editorEntries.
      scorerCache (?p\<lparr>scorerCache := snd (filterEntries sc ?q editorEntries (scorerCache ?p))\<rparr>) (cacheKey e ?q)
        = Some (doScoreItem sc (getLabel e) (getDescription e) ?q)"
    by (simp add: filterEntries_cache_value [OF q] empty cachedScore_empty)
  have each: "score (doScoreItem sc (getLabel r) (getDescription r) ?q) \<noteq> 0
                \<and> labelHighlights r = labelMatch (doScoreItem sc (getLabel r) (getDescription r) ?q)
                \<and> descriptionHighlights r = descriptionMatch (doScoreItem sc (getLabel r) (getDescription r) ?q)"
    if "r \<in> set (entries m)" for r
  proof -
    have "r \<in> set (if groupCount svc > 1 then groupEntries svc None ?srt else ?srt)"
      using that ents by simp
    from result_member [OF this]
    obtain x where x: "x \<in> set ?srt" "editor r = editor x" "group r = group x"
        "labelHighlights r = labelHighlights x" "descriptionHighlights r = descriptionHighlights x"
      by blast
    obtain e where e: "e \<in> set editorEntries" "editor x = editor e" "group x = group e"
        "score (cachedScore sc (scorerCache ?p) ?q e) \<noteq> 0"
        "labelHighlights x = labelMatch (cachedScore sc (scorerCache ?p) ?q e)"
        "descriptionHighlights x = descriptionMatch (cachedScore sc (scorerCache ?p) ?q e)"
      using sortedEntries_member [OF x(1)] q by auto
    have "getLabel r = getLabel e" "getDescription r = getDescription e"
      using x e by (simp_all add: getLabel_def getDescription_def)
    with x e show ?thesis by (simp add: empty cachedScore_empty)
  qed
  from first miss res stored each show ?thesis by blast
qed

theorem onClose_then_query_recomputes_witness:
  "fst (getResults exampleScorer exampleService exampleEntries ''fo'' stalePicker)
     \<noteq> Some (QuickOpenModel exampleResultFo)
   \<and> (\<exists>m this'. getResults exampleScorer exampleService exampleEntries ''fo'' (onClose True stalePicker) = (Some m, this')
        \<and> entries m = exampleResultFo
        \<and> scorerCache this' (cacheKey (newEditorPickerEntry edA 1) (prepareQuery ''fo''))
            = Some (doScoreItem exampleScorer (getLabel (newEditorPickerEntry edA 1))
                (getDescription (newEditorPickerEntry edA 1)) (prepareQuery ''fo'')))"
proof -
  have stale: "fst (getResults exampleScorer exampleService exampleEntries ''fo'' stalePicker)
     \<noteq> Some (QuickOpenModel exampleResultFo)"
    by code_simp
  have mem: "newEditorPickerEntry edA 1 \<in> set exampleEntries"
    by (simp add: exampleEntries_def exampleCandidates_def)
  from onClose_then_query_recomputes [OF example_fo example_ne, of True stalePicker exampleScorer exampleService] mem
  obtain m this' where r: "getResults exampleScorer exampleService exampleEntries ''fo'' (onClose True stalePicker) = (Some m, this')"
    and c: "scorerCache this' (cacheKey (newEditorPickerEntry edA 1) (prepareQuery ''fo''))
            = Some (doScoreItem exampleScorer (getLabel (newEditorPickerEntry edA 1))
                (getDescription (newEditorPickerEntry edA 1)) (prepareQuery ''fo''))"
    by blast
  from r example_query_fo_closed have "entries m = exampleResultFo" by auto
  with stale r c show ?thesis by blast
qed



end
